theory Spec2Isabelle
  imports Complex_Main
begin

section \<open>The rate-limiting proxy of \<^verbatim>\<open>src/main.go\<close>\<close>

text \<open>
  The program keeps one token bucket (\<^verbatim>\<open>*rate.Limiter\<close>) per value of the
  \<^verbatim>\<open>remember_token\<close> cookie and asks it before it forwards a request. The
  embedding has three layers: the token bucket, the registry \<^verbatim>\<open>RateLimiters\<close> with
  the objects it points to, and the handler \<^verbatim>\<open>LimitMiddleware\<close> with the part of
  \<^verbatim>\<open>encoding/json\<close> and \<^verbatim>\<open>io\<close> that decides which bytes of the body it reads.

  Time is a natural number of nanoseconds since the zero \<^verbatim>\<open>time.Time\<close>; a
  \<^verbatim>\<open>time.Duration\<close> that is not negative is a natural number of nanoseconds. The
  mutex \<^verbatim>\<open>mu\<close> has no field in the model: every operation that holds it is one
  atomic function on the state.
\<close>

subsection \<open>The token bucket\<close>

definition Second :: nat where
  "Second = 1000000000"

definition Minute :: nat where
  "Minute = 60 * Second"

text \<open>\<^verbatim>\<open>Duration.Seconds\<close>, in exact arithmetic.\<close>

definition Seconds :: "nat \<Rightarrow> rat" where
  "Seconds d = of_nat d / of_nat Second"

text \<open>
  \<^verbatim>\<open>rate.Every(interval)\<close> for a positive interval: one token per interval, as
  tokens per second. (For an interval that is not positive the library returns its
  infinite limit; \<^verbatim>\<open>main\<close> passes \<^verbatim>\<open>time.Minute\<close>.)
\<close>

definition Every :: "nat \<Rightarrow> rat" where
  "Every interval = 1 / Seconds interval"

text \<open>
  Modelled from the spec: the state of \<^verbatim>\<open>rate.Limiter\<close>, the token bucket of
  \<^verbatim>\<open>golang.org/x/time/rate\<close>, which \<^verbatim>\<open>src/main.go\<close> imports and which is not under
  \<^verbatim>\<open>src/\<close>. Section 3 of the spec gives it as refill rate, burst capacity, current
  token count and last-refill timestamp. Token counts are exact rationals here where
  the library computes in \<^verbatim>\<open>float64\<close>.
\<close>

record Limiter =
  limit :: rat
  capacity :: int
  tokens :: rat
  last_time :: nat

text \<open>
  Modelled from the spec: \<^verbatim>\<open>rate.NewLimiter\<close>, not under \<^verbatim>\<open>src/\<close>. By sections 3
  and 4.2 of the spec a limiter is created with the registry's rate and capacity and
  holds a full quota.
\<close>

definition NewLimiter :: "rat \<Rightarrow> int \<Rightarrow> Limiter" where
  "NewLimiter r b = \<lparr>limit = r, capacity = b, tokens = of_int b, last_time = 0\<rparr>"

text \<open>
  Modelled from the spec: the tokens that accrue over a duration, the term
  \<^verbatim>\<open>elapsed_seconds * rate\<close> of section 4.1.
\<close>

definition tokensFromDuration :: "rat \<Rightarrow> nat \<Rightarrow> rat" where
  "tokensFromDuration r d = Seconds d * r"

text \<open>
  Modelled from the spec: the refill of section 4.1,
  \<^verbatim>\<open>tokens = min(capacity, tokens + elapsed_seconds * rate)\<close>, as the token count at
  time \<open>t\<close>. A clock reading before the last refill counts as no time elapsed.
\<close>

definition advance :: "Limiter \<Rightarrow> nat \<Rightarrow> rat" where
  "advance l t =
     (let lst = (if t < last_time l then t else last_time l);
          elapsed = t - lst;
          tk = tokens l + tokensFromDuration (limit l) elapsed
      in if of_int (capacity l) < tk then of_int (capacity l) else tk)"

text \<open>
  Modelled from the spec: \<^verbatim>\<open>Allow()\<close> of \<^verbatim>\<open>rate.Limiter\<close> (the spec's
  \<^verbatim>\<open>TryAcquire\<close>), not under \<^verbatim>\<open>src/\<close>, at the time \<open>t\<close> that the library reads
  from the clock. By section 4.1 it returns true and takes one token when at least
  one is there after the refill, and returns false otherwise; a refusal leaves the
  limiter as it was. The result is the decision and the limiter afterwards.
\<close>

definition Allow :: "Limiter \<Rightarrow> nat \<Rightarrow> bool \<times> Limiter" where
  "Allow l t =
     (let tk = advance l t
      in if 1 \<le> tk then (True, l\<lparr>tokens := tk - 1, last_time := t\<rparr>) else (False, l))"

text \<open>Successive \<^verbatim>\<open>Allow\<close> calls on one limiter, at the given times.\<close>

fun Allows :: "Limiter \<Rightarrow> nat list \<Rightarrow> bool list" where
  "Allows l [] = []"
| "Allows l (t # ts) = (case Allow l t of (ok, l') \<Rightarrow> ok # Allows l' ts)"

text \<open>
  The calls that succeeded at a time inside the closed window from \<open>s\<close> to
  \<open>s + w\<close>.
\<close>

definition successes_in :: "nat \<Rightarrow> nat \<Rightarrow> nat list \<Rightarrow> bool list \<Rightarrow> nat" where
  "successes_in s w ts oks =
     length (filter (\<lambda>(t, ok). ok \<and> s \<le> t \<and> t \<le> s + w) (zip ts oks))"

subsection \<open>The registry and the limiters it points to\<close>

text \<open>
  \<^verbatim>\<open>limiters\<close> is a \<^verbatim>\<open>map[string]*rate.Limiter\<close>: it holds pointers. The limiter
  objects live in a heap, a list indexed by pointer; \<^verbatim>\<open>rate.NewLimiter\<close> allocates
  at the end of it, so a new object has an address no older object has. Objects
  that the map no longer points to stay in the heap, as they do for a request that
  still holds the pointer.
\<close>

type_synonym ptr = nat

type_synonym heap = "Limiter list"

record RateLimiters =
  limiters :: "string \<rightharpoonup> ptr"
  rate :: rat
  burst :: int

definition NewRateLimiters :: "rat \<Rightarrow> int \<Rightarrow> RateLimiters" where
  "NewRateLimiters r b = \<lparr>limiters = Map.empty, rate = r, burst = b\<rparr>"

text \<open>
  \<^verbatim>\<open>Flusher\<close> loops for ever; \<open>Flusher_tick\<close> is the body of its loop, run once per
  tick of the ticker with the mutex held.
\<close>

definition Flusher_tick :: "RateLimiters \<Rightarrow> RateLimiters" where
  "Flusher_tick rl = rl\<lparr>limiters := Map.empty\<rparr>"

definition GetLimiter :: "RateLimiters \<Rightarrow> heap \<Rightarrow> string \<Rightarrow> ptr \<times> RateLimiters \<times> heap" where
  "GetLimiter rl h token =
     (case limiters rl token of
        Some p \<Rightarrow> (p, rl, h)
      | None \<Rightarrow>
          (length h, rl\<lparr>limiters := (limiters rl)(token \<mapsto> length h)\<rparr>,
           h @ [NewLimiter (rate rl) (burst rl)]))"

text \<open>Successive \<^verbatim>\<open>GetLimiter\<close> calls with no tick of the flusher between them.\<close>

fun GetLimiters :: "RateLimiters \<Rightarrow> heap \<Rightarrow> string list \<Rightarrow> ptr list \<times> RateLimiters \<times> heap" where
  "GetLimiters rl h [] = ([], rl, h)"
| "GetLimiters rl h (token # toks) =
     (case GetLimiter rl h token of
        (p, rl', h') \<Rightarrow> (case GetLimiters rl' h' toks of (ps, rl'', h'') \<Rightarrow> (p # ps, rl'', h'')))"

text \<open>The registry that \<^verbatim>\<open>main\<close> builds, and the heap before any request.\<close>

definition main_rateLimiters :: RateLimiters where
  "main_rateLimiters = NewRateLimiters (Every Minute) 15"

text \<open>
  The map points into the heap, and two identities never share a limiter object.
\<close>

definition valid :: "RateLimiters \<Rightarrow> heap \<Rightarrow> bool" where
  "valid rl h \<longleftrightarrow>
     (\<forall>token p. limiters rl token = Some p \<longrightarrow> p < length h) \<and>
     (\<forall>t1 t2 p. limiters rl t1 = Some p \<and> limiters rl t2 = Some p \<longrightarrow> t1 = t2)"

text \<open>The limiter an identity has in the registry, if it has one.\<close>

definition bucket :: "RateLimiters \<Rightarrow> heap \<Rightarrow> string \<Rightarrow> Limiter option" where
  "bucket rl h token = (case limiters rl token of None \<Rightarrow> None | Some p \<Rightarrow> Some (h ! p))"

text \<open>
  The limiter \<^verbatim>\<open>GetLimiter\<close> hands out for an identity: the one the registry holds
  for it, or a new one. \<open>tokens_at\<close> is the token count of that limiter at a time,
  with the refill up to that time applied and nothing taken.
\<close>

definition limiter_of :: "RateLimiters \<Rightarrow> heap \<Rightarrow> string \<Rightarrow> Limiter" where
  "limiter_of rl h token =
     (case bucket rl h token of Some l \<Rightarrow> l | None \<Rightarrow> NewLimiter (rate rl) (burst rl))"

definition tokens_at :: "RateLimiters \<Rightarrow> heap \<Rightarrow> string \<Rightarrow> nat \<Rightarrow> rat" where
  "tokens_at rl h token t = advance (limiter_of rl h token) t"

subsection \<open>Errors of the decoder and their texts\<close>

text \<open>
  The handler decodes the body with \<^verbatim>\<open>json.NewDecoder(r.Body).Decode\<close> through an
  \<^verbatim>\<open>io.TeeReader\<close>. These are packages of the Go standard library, not code under
  \<^verbatim>\<open>src/\<close>; this and the next four subsections model what the handler uses of them:
  the texts of the errors (\<^verbatim>\<open>Error\<close> methods, \<^verbatim>\<open>strconv.Quote\<close>), the scanner
  (\<^verbatim>\<open>scanner.go\<close>), the reading loop of the decoder (\<^verbatim>\<open>stream.go\<close>) and the
  unmarshalling into the handler's struct (\<^verbatim>\<open>decode.go\<close>).

  The errors \<^verbatim>\<open>Decode\<close> returns: \<^verbatim>\<open>io.EOF\<close>, \<^verbatim>\<open>io.ErrUnexpectedEOF\<close>, a
  \<^verbatim>\<open>*json.SyntaxError\<close> with its message, and a \<^verbatim>\<open>*json.UnmarshalTypeError\<close> with
  its \<^verbatim>\<open>Value\<close> and \<^verbatim>\<open>Field\<close>. The body of a request is taken to arrive whole, so a
  read never fails with another error.
\<close>

datatype json_error =
    EOF
  | ErrUnexpectedEOF
  | SyntaxError string
  | UnmarshalTypeError string string

definition hexdigit :: "nat \<Rightarrow> char" where
  "hexdigit n = ''0123456789abcdef'' ! (n mod 16)"

text \<open>\<^verbatim>\<open>strconv.IsPrint\<close> on the runes below 256.\<close>

definition IsPrint :: "nat \<Rightarrow> bool" where
  "IsPrint r \<longleftrightarrow> (32 \<le> r \<and> r < 127) \<or> (161 \<le> r \<and> r \<le> 255 \<and> r \<noteq> 173)"

text \<open>The UTF-8 encoding of a rune below 256.\<close>

definition utf8_latin1 :: "nat \<Rightarrow> string" where
  "utf8_latin1 r =
     (if r < 128 then [char_of r] else [char_of (192 + r div 64), char_of (128 + r mod 64)])"

text \<open>What \<^verbatim>\<open>strconv.Quote\<close> writes between the quotes for one rune below 256.\<close>

definition Quote_rune :: "nat \<Rightarrow> string" where
  "Quote_rune r =
     (if r = 34 then [CHR 0x5C, CHR 0x22]
      else if r = 92 then [CHR 0x5C, CHR 0x5C]
      else if IsPrint r then utf8_latin1 r
      else if r = 7 then [CHR 0x5C, CHR ''a'']
      else if r = 8 then [CHR 0x5C, CHR ''b'']
      else if r = 12 then [CHR 0x5C, CHR ''f'']
      else if r = 10 then [CHR 0x5C, CHR ''n'']
      else if r = 13 then [CHR 0x5C, CHR ''r'']
      else if r = 9 then [CHR 0x5C, CHR ''t'']
      else if r = 11 then [CHR 0x5C, CHR ''v'']
      else if r < 32 \<or> r = 127 then [CHR 0x5C, CHR ''x'', hexdigit (r div 16), hexdigit r]
      else [CHR 0x5C, CHR ''u'', hexdigit (r div 4096), hexdigit (r div 256),
            hexdigit (r div 16), hexdigit r])"

definition quoteChar :: "char \<Rightarrow> string" where
  "quoteChar c =
     (if c = CHR 0x27 then [CHR 0x27, CHR 0x5C, CHR 0x27, CHR 0x27]
      else if c = CHR 0x22 then [CHR 0x27, CHR 0x22, CHR 0x27]
      else [CHR 0x27] @ Quote_rune (of_char c) @ [CHR 0x27])"

text \<open>
  \<^verbatim>\<open>err.Error()\<close>. The target of the decoder is the anonymous struct of the
  handler, whose only field is \<^verbatim>\<open>MaxAge int64\<close> with the tag \<^verbatim>\<open>json:"max_age"\<close>.
\<close>

definition Error :: "json_error \<Rightarrow> string" where
  \<open>Error e =
     (case e of
        EOF \<Rightarrow> ''EOF''
      | ErrUnexpectedEOF \<Rightarrow> ''unexpected EOF''
      | SyntaxError msg \<Rightarrow> msg
      | UnmarshalTypeError v f \<Rightarrow>
          (if f \<noteq> [] then
             ''json: cannot unmarshal '' @ v @ '' into Go struct field .'' @ f @ '' of type int64''
           else
             ''json: cannot unmarshal '' @ v @ '' into Go value of type '' @
             ''struct { MaxAge int64 "json:'' @ [CHR 0x5C] @ ''"max_age'' @ [CHR 0x5C] @ ''"" }''))\<close>

subsection \<open>The scanner of \<^verbatim>\<open>encoding/json\<close>\<close>

text \<open>
  \<^verbatim>\<open>Decode\<close> reads from the body until the scanner has seen one complete JSON
  value, so the scanner decides how much of the body the handler reads. It is a
  state machine over bytes: \<open>step\<close> names the state function to run next, and
  \<open>parseState\<close> is the stack of open objects and arrays, innermost first.
\<close>

datatype opcode =
    scanContinue | scanBeginLiteral | scanBeginObject | scanObjectKey | scanObjectValue
  | scanEndObject | scanBeginArray | scanArrayValue | scanEndArray | scanSkipSpace
  | scanEnd | scanError

datatype parse = parseObjectKey | parseObjectValue | parseArrayValue

datatype stepfn =
    BeginValue | BeginValueOrEmpty | BeginStringOrEmpty | BeginString | EndValue | EndTop
  | InString | InStringEsc | InStringEscU | InStringEscU1 | InStringEscU12 | InStringEscU123
  | Neg | St1 | St0 | Dot | Dot0 | StE | ESign | E0
  | StT | Tr | Tru | StF | Fa | Fal | Fals | StN | Nu | Nul
  | StError

record scanner =
  step :: stepfn
  parseState :: "parse list"
  endTop :: bool
  err :: "json_error option"

definition maxNestingDepth :: nat where
  "maxNestingDepth = 10000"

definition reset :: scanner where
  "reset = \<lparr>step = BeginValue, parseState = [], endTop = False, err = None\<rparr>"

definition isSpace :: "char \<Rightarrow> bool" where
  "isSpace c \<longleftrightarrow> c = CHR '' '' \<or> c = CHR 0x09 \<or> c = CHR 0x0D \<or> c = CHR 0x0A"

definition isDigit :: "char \<Rightarrow> bool" where
  "isDigit c \<longleftrightarrow> 48 \<le> (of_char c :: nat) \<and> (of_char c :: nat) \<le> 57"

definition isDigit19 :: "char \<Rightarrow> bool" where
  "isDigit19 c \<longleftrightarrow> 49 \<le> (of_char c :: nat) \<and> (of_char c :: nat) \<le> 57"

definition isHex :: "char \<Rightarrow> bool" where
  "isHex c \<longleftrightarrow>
     isDigit c \<or> (97 \<le> (of_char c :: nat) \<and> (of_char c :: nat) \<le> 102)
       \<or> (65 \<le> (of_char c :: nat) \<and> (of_char c :: nat) \<le> 70)"

text \<open>\<^verbatim>\<open>scanner.error\<close>: record the error and switch to the error state.\<close>

definition scan_error :: "scanner \<Rightarrow> char \<Rightarrow> string \<Rightarrow> opcode \<times> scanner" where
  "scan_error s c context =
     (scanError,
      s\<lparr>step := StError,
        err := Some (SyntaxError (''invalid character '' @ quoteChar c @ '' '' @ context))\<rparr>)"

text \<open>The step is set first, as the callers do before they push.\<close>

definition pushParseState :: "scanner \<Rightarrow> char \<Rightarrow> parse \<Rightarrow> opcode \<Rightarrow> opcode \<times> scanner" where
  "pushParseState s c newParseState successState =
     (let s' = s\<lparr>parseState := newParseState # parseState s\<rparr>
      in if length (parseState s') \<le> maxNestingDepth then (successState, s')
         else scan_error s' c ''exceeded max depth'')"

definition popParseState :: "scanner \<Rightarrow> scanner" where
  "popParseState s =
     (let ps = tl (parseState s)
      in if ps = [] then s\<lparr>parseState := ps, step := EndTop, endTop := True\<rparr>
         else s\<lparr>parseState := ps, step := EndValue\<rparr>)"

definition stateEndTop :: "scanner \<Rightarrow> char \<Rightarrow> opcode \<times> scanner" where
  "stateEndTop s c =
     (if \<not> isSpace c then (scanEnd, snd (scan_error s c ''after top-level value''))
      else (scanEnd, s))"

definition stateEndValue :: "scanner \<Rightarrow> char \<Rightarrow> opcode \<times> scanner" where
  "stateEndValue s c =
     (case parseState s of
        [] \<Rightarrow> stateEndTop (s\<lparr>step := EndTop, endTop := True\<rparr>) c
      | ps # rest \<Rightarrow>
          if isSpace c then (scanSkipSpace, s\<lparr>step := EndValue\<rparr>)
          else (case ps of
              parseObjectKey \<Rightarrow>
                if c = CHR '':'' then
                  (scanObjectKey, s\<lparr>parseState := parseObjectValue # rest, step := BeginValue\<rparr>)
                else scan_error s c ''after object key''
            | parseObjectValue \<Rightarrow>
                if c = CHR '','' then
                  (scanObjectValue, s\<lparr>parseState := parseObjectKey # rest, step := BeginString\<rparr>)
                else if c = CHR ''}'' then (scanEndObject, popParseState s)
                else scan_error s c ''after object key:value pair''
            | parseArrayValue \<Rightarrow>
                if c = CHR '','' then (scanArrayValue, s\<lparr>step := BeginValue\<rparr>)
                else if c = CHR '']'' then (scanEndArray, popParseState s)
                else scan_error s c ''after array element''))"

definition stateBeginValue :: "scanner \<Rightarrow> char \<Rightarrow> opcode \<times> scanner" where
  "stateBeginValue s c =
     (if isSpace c then (scanSkipSpace, s)
      else if c = CHR ''{'' then
        pushParseState (s\<lparr>step := BeginStringOrEmpty\<rparr>) c parseObjectKey scanBeginObject
      else if c = CHR ''['' then
        pushParseState (s\<lparr>step := BeginValueOrEmpty\<rparr>) c parseArrayValue scanBeginArray
      else if c = CHR 0x22 then (scanBeginLiteral, s\<lparr>step := InString\<rparr>)
      else if c = CHR ''-'' then (scanBeginLiteral, s\<lparr>step := Neg\<rparr>)
      else if c = CHR ''0'' then (scanBeginLiteral, s\<lparr>step := St0\<rparr>)
      else if c = CHR ''t'' then (scanBeginLiteral, s\<lparr>step := StT\<rparr>)
      else if c = CHR ''f'' then (scanBeginLiteral, s\<lparr>step := StF\<rparr>)
      else if c = CHR ''n'' then (scanBeginLiteral, s\<lparr>step := StN\<rparr>)
      else if isDigit19 c then (scanBeginLiteral, s\<lparr>step := St1\<rparr>)
      else scan_error s c ''looking for beginning of value'')"

definition stateBeginValueOrEmpty :: "scanner \<Rightarrow> char \<Rightarrow> opcode \<times> scanner" where
  "stateBeginValueOrEmpty s c =
     (if isSpace c then (scanSkipSpace, s)
      else if c = CHR '']'' then stateEndValue s c
      else stateBeginValue s c)"

definition stateBeginString :: "scanner \<Rightarrow> char \<Rightarrow> opcode \<times> scanner" where
  "stateBeginString s c =
     (if isSpace c then (scanSkipSpace, s)
      else if c = CHR 0x22 then (scanBeginLiteral, s\<lparr>step := InString\<rparr>)
      else scan_error s c ''looking for beginning of object key string'')"

definition stateBeginStringOrEmpty :: "scanner \<Rightarrow> char \<Rightarrow> opcode \<times> scanner" where
  "stateBeginStringOrEmpty s c =
     (if isSpace c then (scanSkipSpace, s)
      else if c = CHR ''}'' then
        stateEndValue (s\<lparr>parseState := parseObjectValue # tl (parseState s)\<rparr>) c
      else stateBeginString s c)"

definition stateInString :: "scanner \<Rightarrow> char \<Rightarrow> opcode \<times> scanner" where
  "stateInString s c =
     (if c = CHR 0x22 then (scanContinue, s\<lparr>step := EndValue\<rparr>)
      else if c = CHR 0x5C then (scanContinue, s\<lparr>step := InStringEsc\<rparr>)
      else if (of_char c :: nat) < 32 then scan_error s c ''in string literal''
      else (scanContinue, s))"

definition stateInStringEsc :: "scanner \<Rightarrow> char \<Rightarrow> opcode \<times> scanner" where
  "stateInStringEsc s c =
     (if c \<in> set [CHR ''b'', CHR ''f'', CHR ''n'', CHR ''r'', CHR ''t'', CHR 0x5C, CHR ''/'', CHR 0x22]
      then (scanContinue, s\<lparr>step := InString\<rparr>)
      else if c = CHR ''u'' then (scanContinue, s\<lparr>step := InStringEscU\<rparr>)
      else scan_error s c ''in string escape code'')"

text \<open>
  The four states after \<^verbatim>\<open>\u\<close> differ only in the state that follows a
  hexadecimal digit.
\<close>

definition stateInStringEscHex :: "stepfn \<Rightarrow> scanner \<Rightarrow> char \<Rightarrow> opcode \<times> scanner" where
  "stateInStringEscHex nxt s c =
     (if isHex c then (scanContinue, s\<lparr>step := nxt\<rparr>)
      else scan_error s c (''in '' @ [CHR 0x5C] @ ''u hexadecimal character escape''))"

definition state0 :: "scanner \<Rightarrow> char \<Rightarrow> opcode \<times> scanner" where
  "state0 s c =
     (if c = CHR ''.'' then (scanContinue, s\<lparr>step := Dot\<rparr>)
      else if c = CHR ''e'' \<or> c = CHR ''E'' then (scanContinue, s\<lparr>step := StE\<rparr>)
      else stateEndValue s c)"

definition state1 :: "scanner \<Rightarrow> char \<Rightarrow> opcode \<times> scanner" where
  "state1 s c =
     (if isDigit c then (scanContinue, s\<lparr>step := St1\<rparr>)
      else state0 s c)"

definition stateNeg :: "scanner \<Rightarrow> char \<Rightarrow> opcode \<times> scanner" where
  "stateNeg s c =
     (if c = CHR ''0'' then (scanContinue, s\<lparr>step := St0\<rparr>)
      else if isDigit19 c then (scanContinue, s\<lparr>step := St1\<rparr>)
      else scan_error s c ''in numeric literal'')"

definition stateDot :: "scanner \<Rightarrow> char \<Rightarrow> opcode \<times> scanner" where
  "stateDot s c =
     (if isDigit c then (scanContinue, s\<lparr>step := Dot0\<rparr>)
      else scan_error s c ''after decimal point in numeric literal'')"

definition stateDot0 :: "scanner \<Rightarrow> char \<Rightarrow> opcode \<times> scanner" where
  "stateDot0 s c =
     (if isDigit c then (scanContinue, s)
      else if c = CHR ''e'' \<or> c = CHR ''E'' then (scanContinue, s\<lparr>step := StE\<rparr>)
      else stateEndValue s c)"

definition stateESign :: "scanner \<Rightarrow> char \<Rightarrow> opcode \<times> scanner" where
  "stateESign s c =
     (if isDigit c then (scanContinue, s\<lparr>step := E0\<rparr>)
      else scan_error s c ''in exponent of numeric literal'')"

definition stateE :: "scanner \<Rightarrow> char \<Rightarrow> opcode \<times> scanner" where
  "stateE s c =
     (if c = CHR ''+'' \<or> c = CHR ''-'' then (scanContinue, s\<lparr>step := ESign\<rparr>)
      else stateESign s c)"

definition stateE0 :: "scanner \<Rightarrow> char \<Rightarrow> opcode \<times> scanner" where
  "stateE0 s c =
     (if isDigit c then (scanContinue, s)
      else stateEndValue s c)"

text \<open>
  The states inside \<^verbatim>\<open>true\<close>, \<^verbatim>\<open>false\<close> and \<^verbatim>\<open>null\<close>: the byte expected, the
  state after it, and the literal for the error message.
\<close>

definition stateLiteral :: "char \<Rightarrow> stepfn \<Rightarrow> string \<Rightarrow> scanner \<Rightarrow> char \<Rightarrow> opcode \<times> scanner" where
  "stateLiteral expected nxt name s c =
     (if c = expected then (scanContinue, s\<lparr>step := nxt\<rparr>)
      else scan_error s c
        (''in literal '' @ name @ '' (expecting '' @ [CHR 0x27, expected, CHR 0x27] @ '')''))"

text \<open>\<^verbatim>\<open>s.step(s, c)\<close>: run the state function the scanner is in.\<close>

definition scan_step :: "scanner \<Rightarrow> char \<Rightarrow> opcode \<times> scanner" where
  "scan_step s c =
     (case step s of
        BeginValue \<Rightarrow> stateBeginValue s c
      | BeginValueOrEmpty \<Rightarrow> stateBeginValueOrEmpty s c
      | BeginStringOrEmpty \<Rightarrow> stateBeginStringOrEmpty s c
      | BeginString \<Rightarrow> stateBeginString s c
      | EndValue \<Rightarrow> stateEndValue s c
      | EndTop \<Rightarrow> stateEndTop s c
      | InString \<Rightarrow> stateInString s c
      | InStringEsc \<Rightarrow> stateInStringEsc s c
      | InStringEscU \<Rightarrow> stateInStringEscHex InStringEscU1 s c
      | InStringEscU1 \<Rightarrow> stateInStringEscHex InStringEscU12 s c
      | InStringEscU12 \<Rightarrow> stateInStringEscHex InStringEscU123 s c
      | InStringEscU123 \<Rightarrow> stateInStringEscHex InString s c
      | Neg \<Rightarrow> stateNeg s c
      | St1 \<Rightarrow> state1 s c
      | St0 \<Rightarrow> state0 s c
      | Dot \<Rightarrow> stateDot s c
      | Dot0 \<Rightarrow> stateDot0 s c
      | StE \<Rightarrow> stateE s c
      | ESign \<Rightarrow> stateESign s c
      | E0 \<Rightarrow> stateE0 s c
      | StT \<Rightarrow> stateLiteral (CHR ''r'') Tr ''true'' s c
      | Tr \<Rightarrow> stateLiteral (CHR ''u'') Tru ''true'' s c
      | Tru \<Rightarrow> stateLiteral (CHR ''e'') EndValue ''true'' s c
      | StF \<Rightarrow> stateLiteral (CHR ''a'') Fa ''false'' s c
      | Fa \<Rightarrow> stateLiteral (CHR ''l'') Fal ''false'' s c
      | Fal \<Rightarrow> stateLiteral (CHR ''s'') Fals ''false'' s c
      | Fals \<Rightarrow> stateLiteral (CHR ''e'') EndValue ''false'' s c
      | StN \<Rightarrow> stateLiteral (CHR ''u'') Nu ''null'' s c
      | Nu \<Rightarrow> stateLiteral (CHR ''l'') Nul ''null'' s c
      | Nul \<Rightarrow> stateLiteral (CHR ''l'') EndValue ''null'' s c
      | StError \<Rightarrow> (scanError, s))"

subsection \<open>Reading the body\<close>

text \<open>
  A request body is the list of chunks in which its bytes become available: one
  \<^verbatim>\<open>Read\<close> returns bytes of the first chunk only, at most as many as the caller's
  buffer holds, and reports \<^verbatim>\<open>io.EOF\<close> when no chunk is left. The bytes of the
  body are the concatenation of the chunks.
\<close>

fun Read :: "string list \<Rightarrow> nat \<Rightarrow> string \<times> bool \<times> string list" where
  "Read [] n = ([], True, [])"
| "Read (c # cs) n =
     (if length c \<le> n then (c, False, cs) else (take n c, False, drop n c # cs))"

text \<open>
  \<^verbatim>\<open>io.TeeReader(r.Body, &b)\<close>: the reader and the buffer \<open>b\<close> it writes to.
  Every byte a \<^verbatim>\<open>Read\<close> returns is appended to the buffer.
\<close>

type_synonym tee = "string list \<times> string"

definition TeeReader_Read :: "tee \<Rightarrow> nat \<Rightarrow> string \<times> bool \<times> tee" where
  "TeeReader_Read t n =
     (case Read (fst t) n of (d, eof, r') \<Rightarrow> (d, eof, (r', snd t @ d)))"

text \<open>
  What is left to read from \<^verbatim>\<open>io.NopCloser(&b)\<close>: the bytes of the buffer, in one
  chunk.
\<close>

definition Buffer_body :: "string \<Rightarrow> string list" where
  "Buffer_body b = (if b = [] then [] else [b])"

subsection \<open>\<^verbatim>\<open>Decoder.Decode\<close>\<close>

text \<open>
  The inner loop of \<^verbatim>\<open>readValue\<close> over the bytes the last read added; \<open>n\<close> is
  the index of the next byte in the decoder's buffer. It breaks out with the length
  of the value, returns an error, or runs out of bytes.
\<close>

datatype scanned = Break nat | Return "json_error option" | More scanner

fun scanBuf :: "scanner \<Rightarrow> string \<Rightarrow> nat \<Rightarrow> scanned" where
  "scanBuf s [] n = More s"
| "scanBuf s (c # cs) n =
     (case scan_step s c of
        (op, s') \<Rightarrow>
          if op = scanEnd then Break n
          else if (op = scanEndObject \<or> op = scanEndArray)
                  \<and> fst (stateEndValue s' (CHR '' '')) = scanEnd then Break (Suc n)
          else if op = scanError then Return (err s')
          else scanBuf s' cs (Suc n))"

definition minRead :: nat where
  "minRead = 512"

definition nonSpace :: "string \<Rightarrow> bool" where
  "nonSpace b \<longleftrightarrow> (\<exists>c \<in> set b. \<not> isSpace c)"

text \<open>
  \<^verbatim>\<open>readValue\<close> with \<^verbatim>\<open>refill\<close>, from the point where the scanner has seen all of
  the buffer and the last read reported no error. \<open>cap\<close> is the capacity of the
  decoder's buffer and \<open>spare\<close> the part of it not yet filled; a read asks for
  \<open>spare\<close> bytes, after the buffer has grown when fewer than \<open>minRead\<close> were
  spare. The result is the length of the value, the error, the decoder's buffer and
  the reader.
\<close>

function readValue ::
  "scanner \<Rightarrow> string \<Rightarrow> nat \<Rightarrow> nat \<Rightarrow> tee \<Rightarrow> nat \<times> json_error option \<times> string \<times> tee" where
  "readValue s buf cap spare t =
     (let cap' = (if spare < minRead then 2 * cap + minRead else cap);
          spare' = (if spare < minRead then spare + cap + minRead else spare)
      in case TeeReader_Read t spare' of
           (d, eof, t') \<Rightarrow>
             (case scanBuf s d (length buf) of
                Break n \<Rightarrow> (n, None, buf @ d, t')
              | Return e \<Rightarrow> (0, e, buf @ d, t')
              | More s' \<Rightarrow>
                  if eof then
                    (if fst (scan_step s' (CHR '' '')) = scanEnd
                     then (length (buf @ d), None, buf @ d, t')
                     else if nonSpace (buf @ d) then (0, Some ErrUnexpectedEOF, buf @ d, t')
                     else (0, Some EOF, buf @ d, t'))
                  else readValue s' (buf @ d) cap' (spare' - length d) t'))"
  by pat_completeness auto
termination
proof (relation "measure (\<lambda>(s, buf, cap, spare, t). length (concat (fst t)) + length (fst t))")
  show "wf (measure (\<lambda>(s, buf, cap, spare, t). length (concat (fst t)) + length (fst t)))"
    by simp
next
  fix s :: scanner and buf :: string and cap spare :: nat and t :: tee
    and cap' spare' :: nat and x :: "string \<times> bool \<times> tee" and d :: string
    and y :: "bool \<times> tee" and eof :: bool and t' :: tee and s' :: scanner
  assume sp: "spare' = (if spare < minRead then spare + cap + minRead else spare)"
    and rd: "(d, y) = TeeReader_Read t spare'" "(eof, t') = y" and ne: "\<not> eof"
  have pos: "0 < spare'" using sp by (simp add: minRead_def split: if_splits)
  from rd have r: "TeeReader_Read t spare' = (d, eof, t')" by simp
  obtain r b where t: "t = (r, b)" by (cases t)
  from r ne t pos have "length (concat (fst t')) + length (fst t') < length (concat r) + length r"
    by (cases r) (auto simp: TeeReader_Read_def split: if_splits)
  then show "((s', buf @ d, cap', spare' - length d, t'), s, buf, cap, spare, t)
       \<in> measure (\<lambda>(s, buf, cap, spare, t). length (concat (fst t)) + length (fst t))"
    using t by simp
qed

subsection \<open>Unmarshalling into the payload\<close>

text \<open>
  The struct the handler decodes into. \<^verbatim>\<open>MaxAge\<close> is an \<^verbatim>\<open>int64\<close>: the decoder
  stores a number only when it lies in the range of that type, so an integer with
  that range check models it.
\<close>

record Payload =
  MaxAge :: int

text \<open>
  \<^verbatim>\<open>Decode\<close> hands the bytes of the value that \<^verbatim>\<open>readValue\<close> has delimited, and
  so checked, to \<^verbatim>\<open>unmarshal\<close>. What follows models \<^verbatim>\<open>unmarshal\<close> for this
  target on such bytes. \<open>value_span\<close> is the length of the first JSON value of its
  argument, as the scanner delimits it where another byte follows the value.
\<close>

definition value_span :: "string \<Rightarrow> nat option" where
  "value_span bs = (case scanBuf reset bs 0 of Break n \<Rightarrow> Some n | Return e \<Rightarrow> None | More s \<Rightarrow> None)"

definition hexval :: "char \<Rightarrow> nat" where
  "hexval c =
     (if isDigit c then of_char c - 48
      else if 97 \<le> (of_char c :: nat) then of_char c - 87
      else of_char c - 55)"

definition unescape :: "char \<Rightarrow> char option" where
  "unescape e =
     (if e = CHR ''b'' then Some (CHR 0x08)
      else if e = CHR ''f'' then Some (CHR 0x0C)
      else if e = CHR ''n'' then Some (CHR 0x0A)
      else if e = CHR ''r'' then Some (CHR 0x0D)
      else if e = CHR ''t'' then Some (CHR 0x09)
      else if e = CHR 0x5C \<or> e = CHR ''/'' \<or> e = CHR 0x22 then Some e
      else None)"

text \<open>
  The characters of a key, from the bytes between its quotes, when all of them are
  ASCII; \<open>None\<close> when the key holds a character outside ASCII, written as bytes or as
  a \<^verbatim>\<open>\u\<close> escape. Such a key names no field here: the only field name is
  \<^verbatim>\<open>max_age\<close>, and no character outside ASCII folds to one of its letters.
\<close>

fun unquote_ascii :: "string \<Rightarrow> string option" where
  "unquote_ascii [] = Some []"
| "unquote_ascii (c # cs) =
     (if c = CHR 0x5C then
        (case cs of
           [] \<Rightarrow> None
         | e # rest \<Rightarrow>
             if e = CHR ''u'' then
               (case rest of
                  h1 # h2 # h3 # h4 # rest' \<Rightarrow>
                    (let r = ((hexval h1 * 16 + hexval h2) * 16 + hexval h3) * 16 + hexval h4
                     in if r < 128 then map_option ((#) (char_of r)) (unquote_ascii rest')
                        else None)
                | _ \<Rightarrow> None)
             else (case unescape e of
                     None \<Rightarrow> None
                   | Some x \<Rightarrow> map_option ((#) x) (unquote_ascii rest)))
      else if (of_char c :: nat) < 128 then map_option ((#) c) (unquote_ascii cs)
      else None)"

definition to_upper :: "char \<Rightarrow> char" where
  "to_upper c =
     (if 97 \<le> (of_char c :: nat) \<and> (of_char c :: nat) \<le> 122 then char_of (of_char c - 32 :: nat)
      else c)"

text \<open>
  Whether a key, given with its quotes, selects the field: its name is
  \<^verbatim>\<open>max_age\<close> exactly or under case folding.
\<close>

definition key_is_max_age :: "string \<Rightarrow> bool" where
  "key_is_max_age item =
     (case unquote_ascii (butlast (tl item)) of
        None \<Rightarrow> False
      | Some k \<Rightarrow> map to_upper k = ''MAX_AGE'')"

text \<open>
  \<^verbatim>\<open>strconv.ParseInt(s, 10, 64)\<close> on a JSON number literal (which never starts with
  a plus sign): \<open>None\<close> for a literal with a fraction or an exponent and for a value
  outside the range of \<^verbatim>\<open>int64\<close>.
\<close>

definition digits_value :: "string \<Rightarrow> nat" where
  "digits_value ds = foldl (\<lambda>n c. 10 * n + (of_char c - 48)) 0 ds"

definition ParseInt :: "string \<Rightarrow> int option" where
  "ParseInt s =
     (let neg = (s \<noteq> [] \<and> hd s = CHR ''-'');
          ds = (if neg then tl s else s);
          n = int (digits_value ds)
      in if ds = [] \<or> \<not> list_all isDigit ds then None
         else if neg then (if n \<le> 2 ^ 63 then Some (- n) else None)
         else (if n < 2 ^ 63 then Some n else None))"

text \<open>\<^verbatim>\<open>saveError\<close> keeps the first error; decoding goes on after it.\<close>

definition saveError :: "json_error option \<Rightarrow> json_error \<Rightarrow> json_error option" where
  "saveError saved e = (case saved of None \<Rightarrow> Some e | Some e0 \<Rightarrow> Some e0)"

text \<open>
  Storing the value \<open>item\<close> (without leading space) into \<^verbatim>\<open>MaxAge\<close>: \<^verbatim>\<open>null\<close>
  changes nothing, a number that \<^verbatim>\<open>ParseInt\<close> accepts is stored, and everything else
  is an \<^verbatim>\<open>UnmarshalTypeError\<close> that leaves the field as it was.
\<close>

definition store_MaxAge :: "string \<Rightarrow> json_error option \<times> Payload \<Rightarrow> json_error option \<times> Payload" where
  "store_MaxAge item acc =
     (let mismatch = (\<lambda>v. (saveError (fst acc) (UnmarshalTypeError v ''max_age''), snd acc))
      in case item of
           [] \<Rightarrow> acc
         | c # cs \<Rightarrow>
             if c = CHR ''{'' then mismatch ''object''
             else if c = CHR ''['' then mismatch ''array''
             else if c = CHR ''n'' then acc
             else if c = CHR ''t'' \<or> c = CHR ''f'' then mismatch ''bool''
             else if c = CHR 0x22 then mismatch ''string''
             else (case ParseInt item of
                     Some n \<Rightarrow> (fst acc, (snd acc)\<lparr>MaxAge := n\<rparr>)
                   | None \<Rightarrow> mismatch (''number '' @ item)))"

text \<open>
  The loop of \<^verbatim>\<open>decodeState.object\<close> over the members of the top-level object,
  from behind its opening brace: read the key, the colon and the value, store the
  value when the key selects the field and skip it otherwise, and go on after a
  comma.
\<close>

function object :: "string \<Rightarrow> json_error option \<times> Payload \<Rightarrow> json_error option \<times> Payload" where
  "object bs acc =
     (case dropWhile isSpace bs of
        [] \<Rightarrow> acc
      | c # cs \<Rightarrow>
          if c = CHR ''}'' then acc
          else (case value_span (c # cs) of
              None \<Rightarrow> acc
            | Some n \<Rightarrow>
                (case dropWhile isSpace (drop n (c # cs)) of
                   [] \<Rightarrow> acc
                 | colon # vs \<Rightarrow>
                     (case value_span vs of
                        None \<Rightarrow> acc
                      | Some m \<Rightarrow>
                          (case dropWhile isSpace (drop m vs) of
                             [] \<Rightarrow> acc
                           | sep # rest \<Rightarrow>
                               if sep = CHR '','' then
                                 object rest
                                   (if key_is_max_age (take n (c # cs))
                                    then store_MaxAge (dropWhile isSpace (take m vs)) acc
                                    else acc)
                               else
                                 (if key_is_max_age (take n (c # cs))
                                  then store_MaxAge (dropWhile isSpace (take m vs)) acc
                                  else acc))))))"
  by pat_completeness auto
termination
proof (relation "measure (\<lambda>(bs, acc). length bs)")
  show "wf (measure (\<lambda>(bs, acc). length bs))" by simp
next
  fix bs :: string and acc :: "json_error option \<times> Payload" and c cs n colon vs m sep rest
  assume a: "dropWhile isSpace bs = c # cs"
    "dropWhile isSpace (drop n (c # cs)) = colon # vs"
    "dropWhile isSpace (drop m vs) = sep # rest"
  have "length (sep # rest) \<le> length vs"
    unfolding a(3) [symmetric]
    by (rule order_trans [OF length_dropWhile_le]) simp
  moreover have "length (colon # vs) \<le> length (c # cs)"
    unfolding a(2) [symmetric]
    by (rule order_trans [OF length_dropWhile_le]) simp
  moreover have "length (c # cs) \<le> length bs"
    unfolding a(1) [symmetric] by (rule length_dropWhile_le)
  ultimately have "length rest < length bs" by simp
  then show "((rest,
         if key_is_max_age (take n (c # cs))
         then store_MaxAge (dropWhile isSpace (take m vs)) acc else acc),
        bs, acc) \<in> measure (\<lambda>(bs, acc). length bs)"
    by simp
qed

text \<open>
  The defining equations of the two loops are unfolded by hand in the proofs, one
  round at a time.
\<close>

declare readValue.simps [simp del]

declare object.simps [simp del]

text \<open>
  \<^verbatim>\<open>unmarshal\<close> of the value \<open>v\<close> into a payload that is zero before: the first
  saved error, if any, and the payload afterwards. An object is decoded member by
  member and \<^verbatim>\<open>null\<close> changes nothing; an array, a string, a number or a boolean
  at the top level is an \<^verbatim>\<open>UnmarshalTypeError\<close>.
\<close>

definition unmarshal :: "string \<Rightarrow> json_error option \<times> Payload" where
  "unmarshal v =
     (let zero = \<lparr>MaxAge = 0\<rparr>;
          mismatch = (\<lambda>x. (Some (UnmarshalTypeError x []), zero))
      in case dropWhile isSpace v of
           [] \<Rightarrow> (None, zero)
         | c # cs \<Rightarrow>
             if c = CHR ''{'' then object cs (None, zero)
             else if c = CHR ''['' then mismatch ''array''
             else if c = CHR ''n'' then (None, zero)
             else if c = CHR ''t'' \<or> c = CHR ''f'' then mismatch ''bool''
             else if c = CHR 0x22 then mismatch ''string''
             else mismatch ''number'')"

text \<open>
  \<^verbatim>\<open>json.NewDecoder(r).Decode(&queryPayload)\<close> on a new decoder, whose buffer is
  empty, over the tee reader \<open>t\<close>: the error (\<open>None\<close> is \<^verbatim>\<open>nil\<close>), the payload, and
  the tee reader afterwards.
\<close>

definition Decode :: "tee \<Rightarrow> json_error option \<times> Payload \<times> tee" where
  "Decode t =
     (case readValue reset [] 0 0 t of
        (n, e, buf, t') \<Rightarrow>
          (case e of
             Some x \<Rightarrow> (Some x, \<lparr>MaxAge = 0\<rparr>, t')
           | None \<Rightarrow> (case unmarshal (take n buf) of (e', p) \<Rightarrow> (e', p, t'))))"

subsection \<open>The handler\<close>

text \<open>
  Of a request the handler reads the cookies and the body, and nothing else; it
  passes the request on with a new body and everything else as it came.
  \<open>Cookies\<close> are the name and value pairs that \<^verbatim>\<open>net/http\<close> parses from the
  \<^verbatim>\<open>Cookie\<close> headers, in their order.
\<close>

record Request =
  Cookies :: "(string \<times> string) list"
  Body :: "string list"

text \<open>
  \<^verbatim>\<open>r.Cookie(name)\<close>: the value of the first cookie with that name; \<open>None\<close> is
  \<^verbatim>\<open>http.ErrNoCookie\<close>.
\<close>

definition Cookie :: "Request \<Rightarrow> string \<Rightarrow> string option" where
  "Cookie r name = (if name = [] then None else map_of (Cookies r) name)"

text \<open>
  What a handler has done to its \<^verbatim>\<open>http.ResponseWriter\<close>: the headers it set, the
  status code it passed to \<^verbatim>\<open>WriteHeader\<close> (\<open>None\<close> when it never called it), and
  the bytes it wrote. Every request gets a new one.
\<close>

record ResponseWriter =
  Header :: "string \<rightharpoonup> string list"
  Status :: "nat option"
  Written :: string

definition new_ResponseWriter :: ResponseWriter where
  "new_ResponseWriter = \<lparr>Header = Map.empty, Status = None, Written = []\<rparr>"

definition Header_Set :: "ResponseWriter \<Rightarrow> string \<Rightarrow> string \<Rightarrow> ResponseWriter" where
  "Header_Set w key v = w\<lparr>Header := (Header w)(key \<mapsto> [v])\<rparr>"

definition Write :: "ResponseWriter \<Rightarrow> string \<Rightarrow> ResponseWriter" where
  "Write w bs = w\<lparr>Written := Written w @ bs\<rparr>"

text \<open>
  The status code the client gets: \<^verbatim>\<open>net/http\<close> sends 200 with the first
  \<^verbatim>\<open>Write\<close> when the handler has set none.
\<close>

definition StatusCode :: "ResponseWriter \<Rightarrow> nat" where
  "StatusCode w = (case Status w of None \<Rightarrow> 200 | Some c \<Rightarrow> c)"

definition RLPayload :: string where
  \<open>RLPayload =
     ''{'' @ [CHR 0x0A] @
     ''    "job": {'' @ [CHR 0x0A] @
     ''        "error": "You have reached the request limit. Please try again later",'' @ [CHR 0x0A] @
     ''        "status": 4'' @ [CHR 0x0A] @
     ''    }'' @ [CHR 0x0A] @
     ''}''\<close>

text \<open>
  The handler that \<^verbatim>\<open>LimitMiddleware(limiters)(next)\<close> returns, run on the request
  \<open>r\<close> at the time \<open>now\<close> (which \<^verbatim>\<open>Allow\<close> reads from the clock), with the registry
  \<open>rl\<close> and the heap \<open>h\<close>. It yields what the handler itself did to the response
  writer, the request it passed to \<^verbatim>\<open>next.ServeHTTP\<close> (\<open>None\<close> when it did not call
  it), and the registry and heap afterwards. The steps of one request are taken
  together, with no other request or tick between them. The pointer that
  \<^verbatim>\<open>GetLimiter\<close> returns lies in the heap in every state the program reaches (see
  \<open>valid\<close>), so \<open>h' ! p\<close> is the limiter it points to.
\<close>

definition LimitMiddleware ::
  "RateLimiters \<Rightarrow> heap \<Rightarrow> nat \<Rightarrow> Request \<Rightarrow> (ResponseWriter \<times> Request option) \<times> RateLimiters \<times> heap" where
  "LimitMiddleware rl h now r =
     (let w = new_ResponseWriter
      in case Cookie r ''remember_token'' of
           None \<Rightarrow> ((Write w ''No cookie found'', None), rl, h)
         | Some remToken \<Rightarrow>
             (case Decode (Body r, []) of
                (e, queryPayload, unread, b) \<Rightarrow>
                  (case e of
                     Some x \<Rightarrow>
                       ((Write w (''Error parsing request body'' @ Error x), None), rl, h)
                   | None \<Rightarrow>
                       (case GetLimiter rl h remToken of
                          (p, rl', h') \<Rightarrow>
                            (case Allow (h' ! p) now of
                               (ok, l') \<Rightarrow>
                                 if \<not> ok \<and> MaxAge queryPayload = 0 then
                                   ((Write (Header_Set w ''Content-Type'' ''application/json'')
                                       RLPayload, None),
                                    rl', h'[p := l'])
                                 else
                                   ((w, Some (r\<lparr>Body := Buffer_body b\<rparr>)), rl', h'[p := l']))))))"

text \<open>The handler on a sequence of requests, each with the time it is served at.\<close>

fun serve :: "RateLimiters \<Rightarrow> heap \<Rightarrow> (nat \<times> Request) list \<Rightarrow> RateLimiters \<times> heap" where
  "serve rl h [] = (rl, h)"
| "serve rl h ((now, r) # rs) =
     (case LimitMiddleware rl h now r of (out, rl', h') \<Rightarrow> serve rl' h' rs)"

text \<open>
  A request that reaches the rate-limit check of an identity: it carries the
  identity in its cookie and its body decodes.
\<close>

definition checked :: "Request \<Rightarrow> string \<Rightarrow> bool" where
  "checked r token \<longleftrightarrow>
     Cookie r ''remember_token'' = Some token \<and> fst (Decode (Body r, [])) = None"

text \<open>
  The states the program can be in: \<^verbatim>\<open>main\<close> starts with an empty registry and an
  empty heap, and from then on requests are served and the flusher ticks, in any
  order.
\<close>

inductive reachable :: "RateLimiters \<Rightarrow> heap \<Rightarrow> bool" where
  start: "reachable main_rateLimiters []"
| request: "reachable rl h \<Longrightarrow> LimitMiddleware rl h now r = (out, rl', h') \<Longrightarrow> reachable rl' h'"
| tick: "reachable rl h \<Longrightarrow> reachable (Flusher_tick rl) h"

subsection \<open>A bound for the proofs\<close>

text \<open>
  An upper bound on the acquisitions that can still succeed inside the window from
  \<open>s\<close> to \<open>s + w\<close>, from the state of a limiter: the tokens it has when the window
  opens and those that accrue until it closes.
\<close>

definition bound :: "Limiter \<Rightarrow> nat \<Rightarrow> nat \<Rightarrow> rat" where
  "bound l s w =
     (if last_time l \<le> s then advance l s + Seconds w * limit l
      else if last_time l \<le> s + w then tokens l + Seconds (s + w - last_time l) * limit l
      else 0)"

section \<open>Properties of the registry\<close>

lemma GetLimiter_present:
  "limiters rl token = Some p \<Longrightarrow> GetLimiter rl h token = (p, rl, h)"
  by (simp add: GetLimiter_def)

lemma GetLimiter_absent:
  "limiters rl token = None \<Longrightarrow>
   GetLimiter rl h token =
     (length h, rl\<lparr>limiters := (limiters rl)(token \<mapsto> length h)\<rparr>,
      h @ [NewLimiter (rate rl) (burst rl)])"
  by (simp add: GetLimiter_def)

lemma GetLimiter_stores:
  "GetLimiter rl h token = (p, rl', h') \<Longrightarrow> limiters rl' token = Some p"
  by (auto simp: GetLimiter_def split: option.splits)

lemma GetLimiter_keeps:
  "GetLimiter rl h token = (p, rl', h') \<Longrightarrow> limiters rl t = Some q \<Longrightarrow> limiters rl' t = Some q"
  by (auto simp: GetLimiter_def split: option.splits)

lemma GetLimiter_dom:
  "GetLimiter rl h token = (p, rl', h') \<Longrightarrow> dom (limiters rl') = insert token (dom (limiters rl))"
  by (auto simp: GetLimiter_def split: option.splits)

lemma GetLimiter_heap_length:
  "GetLimiter rl h token = (p, rl', h') \<Longrightarrow>
   length h' = length h + (if token \<in> dom (limiters rl) then 0 else 1)"
  by (auto simp: GetLimiter_def split: option.splits)

lemma GetLimiters_length:
  "GetLimiters rl h toks = (ps, rl', h') \<Longrightarrow> length ps = length toks"
  by (induction toks arbitrary: rl h ps) (auto split: prod.splits)

lemma GetLimiters_keeps:
  "GetLimiters rl h toks = (ps, rl', h') \<Longrightarrow> limiters rl t = Some q \<Longrightarrow> limiters rl' t = Some q"
proof (induction toks arbitrary: rl h ps)
  case Nil
  then show ?case by simp
next
  case (Cons token toks)
  obtain p rl1 h1 where g: "GetLimiter rl h token = (p, rl1, h1)"
    by (cases "GetLimiter rl h token") auto
  obtain ps1 where r: "GetLimiters rl1 h1 toks = (ps1, rl', h')"
    using Cons.prems(1) g by (auto split: prod.splits)
  from GetLimiter_keeps [OF g Cons.prems(2)] have "limiters rl1 t = Some q" .
  from Cons.IH [OF r this] show ?case .
qed

text \<open>Every call returns what the map holds for its identity when the calls are over.\<close>

lemma GetLimiters_returns:
  "GetLimiters rl h toks = (ps, rl', h') \<Longrightarrow> i < length toks \<Longrightarrow>
   limiters rl' (toks ! i) = Some (ps ! i)"
proof (induction toks arbitrary: rl h ps i)
  case Nil
  then show ?case by simp
next
  case (Cons token toks)
  obtain p rl1 h1 where g: "GetLimiter rl h token = (p, rl1, h1)"
    by (cases "GetLimiter rl h token") auto
  obtain ps1 where r: "GetLimiters rl1 h1 toks = (ps1, rl', h')" and ps: "ps = p # ps1"
    using Cons.prems(1) g by (auto split: prod.splits)
  show ?case
  proof (cases i)
    case 0
    from GetLimiters_keeps [OF r GetLimiter_stores [OF g]] show ?thesis
      using 0 ps by simp
  next
    case (Suc j)
    with Cons.prems(2) have "j < length toks" by simp
    from Cons.IH [OF r this] show ?thesis
      using Suc ps by simp
  qed
qed

lemma GetLimiters_allocations:
  "GetLimiters rl h toks = (ps, rl', h') \<Longrightarrow>
   length h' = length h + card (set toks - dom (limiters rl))"
proof (induction toks arbitrary: rl h ps)
  case Nil
  then show ?case by simp
next
  case (Cons token toks)
  let ?D = "dom (limiters rl)"
  obtain p rl1 h1 where g: "GetLimiter rl h token = (p, rl1, h1)"
    by (cases "GetLimiter rl h token") auto
  obtain ps1 where r: "GetLimiters rl1 h1 toks = (ps1, rl', h')"
    using Cons.prems(1) g by (auto split: prod.splits)
  have d: "dom (limiters rl1) = insert token ?D"
    by (rule GetLimiter_dom [OF g])
  have l1: "length h1 = length h + (if token \<in> ?D then 0 else 1)"
    by (rule GetLimiter_heap_length [OF g])
  have l2: "length h' = length h1 + card (set toks - insert token ?D)"
    unfolding d [symmetric] by (rule Cons.IH [OF r])
  have c: "card (set (token # toks) - ?D) =
           (if token \<in> ?D then 0 else 1) + card (set toks - insert token ?D)"
  proof (cases "token \<in> ?D")
    case True
    then have "set (token # toks) - ?D = set toks - insert token ?D" by auto
    then show ?thesis using True by (simp only: if_True add_0)
  next
    case False
    have f: "finite (set toks - ?D)" by simp
    have "set (token # toks) - ?D = insert token (set toks - ?D)"
      using False by auto
    then have "card (set (token # toks) - ?D) = Suc (card (set toks - ?D - {token}))"
      using card.insert_remove [OF f, of token] by (simp only:)
    moreover have "set toks - ?D - {token} = set toks - insert token ?D" by auto
    ultimately show ?thesis using False by simp
  qed
  show ?case unfolding c l2 l1 by (simp only: add.assoc)
qed

text \<open>
  C4. \<^verbatim>\<open>GetLimiter\<close> returns the limiter the map already holds for the identity,
  and leaves registry and heap as they were; otherwise it allocates a new limiter
  with the registry's rate and burst, stores its pointer under the identity and
  returns it. Hence, over any run of calls with no flush between them, two calls
  with the same identity return the same pointer, and the run allocates exactly one
  limiter for each identity that had none before it.
\<close>

theorem GetLimiter_get_or_create:
  "(limiters rl token = Some p \<longrightarrow> GetLimiter rl h token = (p, rl, h)) \<and>
   (limiters rl token = None \<longrightarrow>
      GetLimiter rl h token =
        (length h, rl\<lparr>limiters := (limiters rl)(token \<mapsto> length h)\<rparr>,
         h @ [NewLimiter (rate rl) (burst rl)])) \<and>
   (GetLimiters rl h toks = (ps, rl', h') \<longrightarrow>
      (\<forall>i j. i < length toks \<and> j < length toks \<and> toks ! i = toks ! j \<longrightarrow> ps ! i = ps ! j) \<and>
      length h' = length h + card (set toks - dom (limiters rl)))"
proof (intro conjI impI allI)
  assume "limiters rl token = Some p"
  then show "GetLimiter rl h token = (p, rl, h)" by (rule GetLimiter_present)
next
  assume "limiters rl token = None"
  then show "GetLimiter rl h token =
        (length h, rl\<lparr>limiters := (limiters rl)(token \<mapsto> length h)\<rparr>,
         h @ [NewLimiter (rate rl) (burst rl)])" by (rule GetLimiter_absent)
next
  fix i j
  assume r: "GetLimiters rl h toks = (ps, rl', h')"
    and ij: "i < length toks \<and> j < length toks \<and> toks ! i = toks ! j"
  from ij have i: "i < length toks" and j: "j < length toks" and e: "toks ! i = toks ! j"
    by blast+
  have "Some (ps ! i) = limiters rl' (toks ! i)"
    by (rule GetLimiters_returns [OF r i, symmetric])
  also have "\<dots> = limiters rl' (toks ! j)"
    by (rule arg_cong [OF e])
  also have "\<dots> = Some (ps ! j)"
    by (rule GetLimiters_returns [OF r j])
  finally show "ps ! i = ps ! j" by (rule option.inject [THEN iffD1])
next
  assume "GetLimiters rl h toks = (ps, rl', h')"
  then show "length h' = length h + card (set toks - dom (limiters rl))"
    by (rule GetLimiters_allocations)
qed

theorem GetLimiter_get_or_create_witness:
  "limiters main_rateLimiters ''a'' = None \<and>
   GetLimiter main_rateLimiters [] ''a'' =
     (0, main_rateLimiters\<lparr>limiters := [''a'' \<mapsto> 0]\<rparr>, [NewLimiter (Every Minute) 15]) \<and>
   limiters (main_rateLimiters\<lparr>limiters := [''a'' \<mapsto> 0]\<rparr>) ''a'' = Some 0 \<and>
   GetLimiter (main_rateLimiters\<lparr>limiters := [''a'' \<mapsto> 0]\<rparr>) [NewLimiter (Every Minute) 15] ''a'' =
     (0, main_rateLimiters\<lparr>limiters := [''a'' \<mapsto> 0]\<rparr>, [NewLimiter (Every Minute) 15]) \<and>
   GetLimiters main_rateLimiters [] [''a'', ''b'', ''a''] =
     ([0, 1, 0], main_rateLimiters\<lparr>limiters := [''a'' \<mapsto> 0, ''b'' \<mapsto> 1]\<rparr>,
      [NewLimiter (Every Minute) 15, NewLimiter (Every Minute) 15]) \<and>
   [''a'', ''b'', ''a''] ! 0 = [''a'', ''b'', ''a''] ! 2 \<and>
   [0, 1, 0 :: nat] ! 0 = [0, 1, 0] ! 2 \<and>
   length [NewLimiter (Every Minute) 15, NewLimiter (Every Minute) 15] =
     length ([] :: heap) + card (set [''a'', ''b'', ''a''] - dom (limiters main_rateLimiters))"
proof -
  let ?rl = "main_rateLimiters"
  let ?rl1 = "main_rateLimiters\<lparr>limiters := [''a'' \<mapsto> 0]\<rparr>"
  let ?l = "NewLimiter (Every Minute) 15"
  have n: "limiters ?rl ''a'' = None"
    by (simp add: main_rateLimiters_def NewRateLimiters_def)
  have s: "limiters ?rl1 ''a'' = Some 0" by simp
  have r: "GetLimiters ?rl [] [''a'', ''b'', ''a''] =
     ([0, 1, 0], ?rl\<lparr>limiters := [''a'' \<mapsto> 0, ''b'' \<mapsto> 1]\<rparr>, [?l, ?l])"
    by (simp add: GetLimiter_def main_rateLimiters_def NewRateLimiters_def)
  have rb: "rate ?rl = Every Minute" "burst ?rl = 15"
    by (simp_all add: main_rateLimiters_def NewRateLimiters_def)
  have e: "limiters ?rl = Map.empty"
    by (simp add: main_rateLimiters_def NewRateLimiters_def)
  note T = GetLimiter_get_or_create [of ?rl "''a''" 0 "[]" "[''a'', ''b'', ''a'']" "[0, 1, 0]"
      "?rl\<lparr>limiters := [''a'' \<mapsto> 0, ''b'' \<mapsto> 1]\<rparr>" "[?l, ?l]"]
  from T n have "GetLimiter ?rl [] ''a'' =
        (length ([] :: heap), ?rl\<lparr>limiters := (limiters ?rl)(''a'' \<mapsto> length ([] :: heap))\<rparr>,
         [] @ [NewLimiter (rate ?rl) (burst ?rl)])"
    by blast
  then have a: "GetLimiter ?rl [] ''a'' = (0, ?rl1, [?l])"
    by (simp add: rb e)
  from T r have "\<forall>i j. i < length [''a'', ''b'', ''a''] \<and> j < length [''a'', ''b'', ''a''] \<and>
       [''a'', ''b'', ''a''] ! i = [''a'', ''b'', ''a''] ! j \<longrightarrow> [0, 1, 0 :: nat] ! i = [0, 1, 0] ! j"
    and c: "length [?l, ?l] = length ([] :: heap) + card (set [''a'', ''b'', ''a''] - dom (limiters ?rl))"
    by blast+
  then have "0 < length [''a'', ''b'', ''a''] \<and> 2 < length [''a'', ''b'', ''a''] \<and>
       [''a'', ''b'', ''a''] ! 0 = [''a'', ''b'', ''a''] ! 2 \<longrightarrow> [0, 1, 0 :: nat] ! 0 = [0, 1, 0] ! 2"
    by blast
  then have b: "[0, 1, 0 :: nat] ! 0 = [0, 1, 0] ! 2" by simp
  from GetLimiter_get_or_create [of ?rl1 "''a''" 0 "[?l]" "[]" "[]" ?rl1 "[?l]"] s
  have d: "GetLimiter ?rl1 [?l] ''a'' = (0, ?rl1, [?l])" by blast
  have k: "[''a'', ''b'', ''a''] ! 0 = [''a'', ''b'', ''a''] ! 2" by simp
  from n a s d r k b c show ?thesis by blast
qed

section \<open>Properties of the token bucket\<close>

lemma Seconds_nonneg: "0 \<le> Seconds d"
  by (simp add: Seconds_def Second_def)

lemma Seconds_split: "a \<le> b \<Longrightarrow> b \<le> c \<Longrightarrow> Seconds (c - a) = Seconds (b - a) + Seconds (c - b)"
  by (simp add: Seconds_def add_divide_distrib [symmetric] of_nat_diff)

lemma advance_eq:
  "last_time l \<le> t \<Longrightarrow>
   advance l t = min (of_int (capacity l)) (tokens l + Seconds (t - last_time l) * limit l)"
  by (simp add: advance_def tokensFromDuration_def Let_def min_def)

lemma advance_NewLimiter: "0 \<le> r \<Longrightarrow> advance (NewLimiter r b) t = of_int b"
proof -
  assume "0 \<le> r"
  then have "0 \<le> Seconds t * r" by (simp add: Seconds_nonneg)
  then show ?thesis
    by (simp add: advance_def NewLimiter_def tokensFromDuration_def Let_def)
qed

lemma Allow_cases:
  "Allow l t = (ok, l') \<Longrightarrow>
   (ok \<and> 1 \<le> advance l t \<and> l' = l\<lparr>tokens := advance l t - 1, last_time := t\<rparr>) \<or> (\<not> ok \<and> l' = l)"
  by (auto simp: Allow_def Let_def split: if_splits)

lemma successes_in_Cons:
  "successes_in s w (t # ts) (ok # oks) =
     (if ok \<and> s \<le> t \<and> t \<le> s + w then 1 else 0) + successes_in s w ts oks"
  by (simp add: successes_in_def)

lemma successes_in_Nil: "successes_in s w [] oks = 0"
  by (simp add: successes_in_def)

lemma bound_nonneg:
  assumes "0 \<le> limit l" "0 \<le> tokens l" "0 \<le> capacity l"
  shows "0 \<le> bound l s w"
proof -
  have "0 \<le> advance l s" if "last_time l \<le> s"
    using assms that by (simp add: advance_eq Seconds_nonneg)
  then show ?thesis
    using assms by (simp add: bound_def Seconds_nonneg)
qed

lemma min_add_le: "0 \<le> y \<Longrightarrow> min c (x + y) \<le> min c x + (y::rat)"
  by (simp add: min_def)

lemma bound_step:
  assumes lim: "0 \<le> limit l" and tk: "0 \<le> tokens l" and cap: "0 \<le> capacity l"
    and lt: "last_time l \<le> t" and a: "1 \<le> advance l t"
  shows "(if s \<le> t \<and> t \<le> s + w then 1 else 0) + bound (l\<lparr>tokens := advance l t - 1, last_time := t\<rparr>) s w
         \<le> bound l s w"
proof -
  let ?l' = "l\<lparr>tokens := advance l t - 1, last_time := t\<rparr>"
  let ?r = "limit l"
  let ?c = "of_int (capacity l) :: rat"
  have at: "advance l t = min ?c (tokens l + Seconds (t - last_time l) * ?r)"
    by (rule advance_eq [OF lt])
  have ac: "advance l t \<le> ?c" unfolding at by (rule min.cobounded1)
  have ak: "advance l t \<le> tokens l + Seconds (t - last_time l) * ?r"
    unfolding at by (rule min.cobounded2)
  have l't: "last_time ?l' = t" "tokens ?l' = advance l t - 1" "limit ?l' = ?r"
    "capacity ?l' = capacity l" by simp_all
  consider (before) "t < s" | (inside) "s \<le> t" "t \<le> s + w" | (after) "s + w < t"
    by linarith
  then show ?thesis
  proof cases
    case before
    have s1: "Seconds (s - last_time l) = Seconds (t - last_time l) + Seconds (s - t)"
      using lt before by (intro Seconds_split) simp_all
    have ls: "last_time l \<le> s" using lt before by simp
    have "advance ?l' s = min ?c (advance l t - 1 + Seconds (s - t) * ?r)"
      using advance_eq [of ?l' s] before unfolding l't by simp
    also have "\<dots> \<le> min ?c (tokens l + Seconds (s - last_time l) * ?r)"
    proof (rule min.mono [OF order_refl])
      have "tokens l + Seconds (s - last_time l) * ?r =
            tokens l + Seconds (t - last_time l) * ?r + Seconds (s - t) * ?r"
        unfolding s1 by (simp only: distrib_right add.assoc)
      with ak show "advance l t - 1 + Seconds (s - t) * ?r \<le> tokens l + Seconds (s - last_time l) * ?r"
        by linarith
    qed
    also have "\<dots> = advance l s"
      by (rule advance_eq [OF ls, symmetric])
    finally have "advance ?l' s \<le> advance l s" .
    moreover have "bound ?l' s w = advance ?l' s + Seconds w * ?r"
      using before by (simp add: bound_def)
    moreover have "bound l s w = advance l s + Seconds w * ?r"
      using ls by (simp add: bound_def)
    ultimately show ?thesis using before by simp
  next
    case inside
    have n1: "0 \<le> Seconds (t - s) * ?r"
      using lim by (simp add: Seconds_nonneg)
    have b': "bound ?l' s w = advance l t - 1 + Seconds (s + w - t) * ?r"
    proof (cases "t = s")
      case True
      have z: "Seconds (s - t) = 0" using True by (simp add: Seconds_def)
      have "advance ?l' s = min ?c (advance l t - 1 + Seconds (s - t) * ?r)"
        using advance_eq [of ?l' s] True unfolding l't by simp
      also have "\<dots> = advance l t - 1" using ac unfolding z by simp
      finally have "advance ?l' s = advance l t - 1" .
      moreover have "bound ?l' s w = advance ?l' s + Seconds w * ?r"
        using True by (simp add: bound_def)
      ultimately show ?thesis using True by simp
    next
      case False
      then have "\<not> t \<le> s" using inside by simp
      then show ?thesis using inside by (simp add: bound_def)
    qed
    show ?thesis
    proof (cases "last_time l \<le> s")
      case True
      have s1: "Seconds (t - last_time l) = Seconds (s - last_time l) + Seconds (t - s)"
        using True inside by (intro Seconds_split) simp_all
      have s2: "Seconds w = Seconds (t - s) + Seconds (s + w - t)"
        using Seconds_split [of s t "s + w"] inside by simp
      have "advance l t = min ?c (tokens l + Seconds (s - last_time l) * ?r + Seconds (t - s) * ?r)"
        unfolding at s1 by (simp only: distrib_right add.assoc)
      also have "\<dots> \<le> min ?c (tokens l + Seconds (s - last_time l) * ?r) + Seconds (t - s) * ?r"
        by (rule min_add_le [OF n1])
      also have "\<dots> = advance l s + Seconds (t - s) * ?r"
        by (simp only: advance_eq [OF True])
      finally have k: "advance l t \<le> advance l s + Seconds (t - s) * ?r" .
      have "bound l s w = advance l s + Seconds (t - s) * ?r + Seconds (s + w - t) * ?r"
        using True by (simp add: bound_def s2 distrib_right)
      with k b' inside show ?thesis by simp
    next
      case False
      then have ls: "s < last_time l" by simp
      have lw: "last_time l \<le> s + w" using lt inside by simp
      have s1: "Seconds (s + w - last_time l) = Seconds (t - last_time l) + Seconds (s + w - t)"
        using lt inside by (intro Seconds_split) simp_all
      have "bound l s w = tokens l + Seconds (t - last_time l) * ?r + Seconds (s + w - t) * ?r"
        using False lw by (simp add: bound_def s1 distrib_right)
      with ak b' inside show ?thesis by simp
    qed
  next
    case after
    have "bound ?l' s w = 0" using after by (simp add: bound_def)
    then show ?thesis using after bound_nonneg [OF lim tk cap, of s w] by simp
  qed
qed

lemma successes_bound:
  "sorted ts \<Longrightarrow> \<forall>t \<in> set ts. last_time l \<le> t \<Longrightarrow>
   0 \<le> limit l \<Longrightarrow> 0 \<le> tokens l \<Longrightarrow> 0 \<le> capacity l \<Longrightarrow>
   of_nat (successes_in s w ts (Allows l ts)) \<le> bound l s w"
proof (induction ts arbitrary: l)
  case Nil
  then show ?case by (simp add: successes_in_Nil bound_nonneg)
next
  case (Cons t ts)
  obtain ok l' where al: "Allow l t = (ok, l')" by (cases "Allow l t") auto
  have lt: "last_time l \<le> t" using Cons.prems(2) by simp
  have st: "sorted ts" and tl: "\<forall>t' \<in> set ts. t \<le> t'" using Cons.prems(1) by simp_all
  have eq: "successes_in s w (t # ts) (Allows l (t # ts)) =
      (if ok \<and> s \<le> t \<and> t \<le> s + w then 1 else 0) + successes_in s w ts (Allows l' ts)"
    by (simp add: al successes_in_Cons)
  from Allow_cases [OF al] show ?case
  proof
    assume h: "ok \<and> 1 \<le> advance l t \<and> l' = l\<lparr>tokens := advance l t - 1, last_time := t\<rparr>"
    then have l': "l' = l\<lparr>tokens := advance l t - 1, last_time := t\<rparr>" and a: "1 \<le> advance l t" by simp_all
    have "of_nat (successes_in s w ts (Allows l' ts)) \<le> bound l' s w"
      using st tl Cons.prems(3,5) a by (intro Cons.IH) (simp_all add: l')
    moreover have "(if s \<le> t \<and> t \<le> s + w then 1 else 0) + bound l' s w \<le> bound l s w"
      unfolding l' by (rule bound_step [OF Cons.prems(3,4,5) lt a])
    ultimately show ?thesis unfolding eq using h
      by (cases "s \<le> t \<and> t \<le> s + w") auto
  next
    assume h: "\<not> ok \<and> l' = l"
    have "of_nat (successes_in s w ts (Allows l ts)) \<le> bound l s w"
      using st tl lt Cons.prems(3,4,5) by (intro Cons.IH) auto
    then show ?thesis unfolding eq using h by simp
  qed
qed

lemma bound_NewLimiter: "0 \<le> r \<Longrightarrow> bound (NewLimiter r b) s w = of_int b + Seconds w * r"
  by (simp add: bound_def advance_NewLimiter) (simp add: NewLimiter_def)

lemma Allow_same_time:
  "last_time l = t \<Longrightarrow> tokens l \<le> of_int (capacity l) \<Longrightarrow>
   Allow l t = (if 1 \<le> tokens l then (True, l\<lparr>tokens := tokens l - 1\<rparr>) else (False, l))"
  by (simp add: Allow_def advance_def tokensFromDuration_def Seconds_def Let_def)

lemma Allows_same_time:
  "last_time l = t \<Longrightarrow> tokens l = of_nat k \<Longrightarrow> of_nat k \<le> (of_int (capacity l) :: rat) \<Longrightarrow>
   Allows l (replicate n t) = replicate (min n k) True @ replicate (n - k) False"
proof (induction n arbitrary: l k)
  case 0
  then show ?case by simp
next
  case (Suc n)
  have tc: "tokens l \<le> of_int (capacity l)" using Suc.prems by simp
  show ?case
  proof (cases k)
    case 0
    then have "Allow l t = (False, l)"
      using Suc.prems tc by (simp add: Allow_same_time)
    moreover have "Allows l (replicate n t) = replicate (min n k) True @ replicate (n - k) False"
      using Suc.prems by (intro Suc.IH) simp_all
    ultimately show ?thesis using 0 by simp
  next
    case (Suc j)
    let ?l' = "l\<lparr>tokens := tokens l - 1\<rparr>"
    have al: "Allow l t = (True, ?l')"
      using Suc.prems tc Suc by (simp add: Allow_same_time)
    have "Allows ?l' (replicate n t) = replicate (min n j) True @ replicate (n - j) False"
      using Suc.prems Suc by (intro Suc.IH) simp_all
    then show ?thesis using al Suc by simp
  qed
qed

lemma Allow_NewLimiter:
  "0 \<le> r \<Longrightarrow> 1 \<le> b \<Longrightarrow>
   Allow (NewLimiter r b) t = (True, (NewLimiter r b)\<lparr>tokens := of_int b - 1, last_time := t\<rparr>)"
  by (simp add: Allow_def advance_NewLimiter)

lemma Every_Minute: "Every Minute = 1 / 60"
  by (simp add: Every_def Seconds_def Minute_def Second_def)

lemma main_config: "rate main_rateLimiters = 1 / 60" "burst main_rateLimiters = 15"
  by (simp_all add: main_rateLimiters_def NewRateLimiters_def Every_Minute)

text \<open>
  C3. A limiter as the program creates it (one token per minute, burst 15) grants
  exactly 15 of 16 calls made at one instant and refuses the 16th. For calls at
  times that never go back, the calls granted inside any window of length \<open>w\<close>
  number at most the burst plus the rate times the seconds of the window; for a
  window of one minute that is at most 16.
\<close>

theorem token_bucket_window:
  "Allows (NewLimiter (rate main_rateLimiters) (burst main_rateLimiters)) (replicate 16 t) =
     replicate 15 True @ [False] \<and>
   (sorted ts \<longrightarrow>
      of_nat (successes_in s w ts (Allows (NewLimiter (rate main_rateLimiters) (burst main_rateLimiters)) ts))
        \<le> of_int (burst main_rateLimiters) + rate main_rateLimiters * Seconds w) \<and>
   (sorted ts \<longrightarrow>
      successes_in s Minute ts (Allows (NewLimiter (rate main_rateLimiters) (burst main_rateLimiters)) ts)
        \<le> 16)"
proof -
  let ?l = "NewLimiter (rate main_rateLimiters) (burst main_rateLimiters)"
  let ?l1 = "?l\<lparr>tokens := of_int (burst main_rateLimiters) - 1, last_time := t\<rparr>"
  have al: "Allow ?l t = (True, ?l1)"
    by (rule Allow_NewLimiter) (simp_all add: main_config)
  have "Allows ?l1 (replicate 15 t) = replicate (min 15 14) True @ replicate (15 - 14) False"
    by (rule Allows_same_time) (simp_all add: main_config NewLimiter_def)
  then have r: "Allows ?l1 (replicate 15 t) = replicate 14 True @ [False]"
    by simp
  have "replicate 16 t = t # replicate 15 t"
    by (simp add: numeral_eq_Suc)
  then have "Allows ?l (replicate 16 t) = True # replicate 14 True @ [False]"
    using al r by simp
  also have "\<dots> = replicate 15 True @ [False]"
    by (simp add: numeral_eq_Suc)
  finally have first: "Allows ?l (replicate 16 t) = replicate 15 True @ [False]" .
  have gen: "of_nat (successes_in s w ts (Allows ?l ts))
        \<le> of_int (burst main_rateLimiters) + rate main_rateLimiters * Seconds w"
    if "sorted ts" for w
  proof -
    have "of_nat (successes_in s w ts (Allows ?l ts)) \<le> bound ?l s w"
      using that by (intro successes_bound) (simp_all add: NewLimiter_def main_config)
    also have "\<dots> = of_int (burst main_rateLimiters) + Seconds w * rate main_rateLimiters"
      by (rule bound_NewLimiter) (simp add: main_config)
    finally show ?thesis by (simp add: mult.commute)
  qed
  have minute: "successes_in s Minute ts (Allows ?l ts) \<le> 16" if "sorted ts"
  proof -
    from gen [OF that, of Minute]
    have "(of_nat (successes_in s Minute ts (Allows ?l ts)) :: rat) \<le> 16"
      by (simp add: main_config Seconds_def Minute_def Second_def)
    then have "(of_nat (successes_in s Minute ts (Allows ?l ts)) :: rat) \<le> of_nat 16"
      by simp
    then show ?thesis
      by (simp only: of_nat_le_iff)
  qed
  from first gen minute show ?thesis by blast
qed

theorem token_bucket_window_witness:
  "sorted [0, 30 * Second, 61 * Second] \<and>
   of_nat (successes_in 0 Minute [0, 30 * Second, 61 * Second]
      (Allows (NewLimiter (rate main_rateLimiters) (burst main_rateLimiters))
         [0, 30 * Second, 61 * Second]))
     \<le> of_int (burst main_rateLimiters) + rate main_rateLimiters * Seconds Minute \<and>
   successes_in 0 Minute [0, 30 * Second, 61 * Second]
      (Allows (NewLimiter (rate main_rateLimiters) (burst main_rateLimiters))
         [0, 30 * Second, 61 * Second]) \<le> 16"
proof -
  have s: "sorted [0, 30 * Second, 61 * Second]" by (simp add: Second_def)
  from token_bucket_window [of 0 "[0, 30 * Second, 61 * Second]" 0 Minute] s
  show ?thesis by blast
qed

section \<open>Properties of the flusher\<close>

text \<open>
  C5. After a tick of the flusher has replaced the map, \<^verbatim>\<open>GetLimiter\<close> gives every
  identity, whatever its limiter held before, a newly allocated limiter with the
  full burst, and the first \<^verbatim>\<open>Allow\<close> on it succeeds (for a burst of at least one
  and a rate that is not negative, as in the registry of \<^verbatim>\<open>main\<close>).
\<close>

theorem Flusher_resets_quota:
  "1 \<le> burst rl \<Longrightarrow> 0 \<le> rate rl \<Longrightarrow>
   (case GetLimiter (Flusher_tick rl) h token of
      (p, rl', h') \<Rightarrow>
        p = length h \<and> limiters rl' token = Some p \<and>
        h' ! p = NewLimiter (rate rl) (burst rl) \<and>
        tokens (h' ! p) = of_int (burst rl) \<and>
        fst (Allow (h' ! p) now))"
  by (simp add: GetLimiter_def Flusher_tick_def Allow_NewLimiter) (simp add: NewLimiter_def)

theorem Flusher_resets_quota_witness:
  "1 \<le> burst (main_rateLimiters\<lparr>limiters := [''abc'' \<mapsto> 0]\<rparr>) \<and>
   0 \<le> rate (main_rateLimiters\<lparr>limiters := [''abc'' \<mapsto> 0]\<rparr>) \<and>
   \<not> fst (Allow ([\<lparr>limit = Every Minute, capacity = 15, tokens = 0, last_time = 7\<rparr>] ! 0) 7) \<and>
   (case GetLimiter (Flusher_tick (main_rateLimiters\<lparr>limiters := [''abc'' \<mapsto> 0]\<rparr>))
           [\<lparr>limit = Every Minute, capacity = 15, tokens = 0, last_time = 7\<rparr>] ''abc'' of
      (p, rl', h') \<Rightarrow>
        p = length [\<lparr>limit = Every Minute, capacity = 15, tokens = 0, last_time = 7\<rparr>] \<and>
        limiters rl' ''abc'' = Some p \<and>
        h' ! p = NewLimiter (rate (main_rateLimiters\<lparr>limiters := [''abc'' \<mapsto> 0]\<rparr>))
                   (burst (main_rateLimiters\<lparr>limiters := [''abc'' \<mapsto> 0]\<rparr>)) \<and>
        tokens (h' ! p) = of_int (burst (main_rateLimiters\<lparr>limiters := [''abc'' \<mapsto> 0]\<rparr>)) \<and>
        fst (Allow (h' ! p) 7))"
proof -
  let ?rl = "main_rateLimiters\<lparr>limiters := [''abc'' \<mapsto> 0]\<rparr>"
  have b: "1 \<le> burst ?rl" and r: "0 \<le> rate ?rl"
    by (simp_all add: main_config)
  have e: "\<not> fst (Allow ([\<lparr>limit = Every Minute, capacity = 15, tokens = 0, last_time = 7\<rparr>] ! 0) 7)"
    by (simp add: Allow_def advance_def tokensFromDuration_def Seconds_def)
  from Flusher_resets_quota [OF b r,
      of "[\<lparr>limit = Every Minute, capacity = 15, tokens = 0, last_time = 7\<rparr>]" "''abc''" 7] b r e
  show ?thesis by blast
qed

section \<open>Properties of the decoder\<close>

text \<open>The bytes in the buffer of the tee reader and the bytes not yet read are the body.\<close>

lemma Read_conserves:
  "Read r n = (d, eof, r') \<Longrightarrow> concat r = d @ concat r'"
  by (cases r) (auto split: if_splits)

lemma TeeReader_Read_conserves:
  "TeeReader_Read t n = (d, eof, t') \<Longrightarrow>
   snd t' = snd t @ d \<and> concat (fst t) = d @ concat (fst t')"
  by (auto simp: TeeReader_Read_def split: prod.splits dest: Read_conserves)

lemma readValue_conserves:
  "readValue s buf cap spare t = (n, e, buf', t') \<Longrightarrow>
   snd t' @ concat (fst t') = snd t @ concat (fst t)"
proof (induction s buf cap spare t arbitrary: n e buf' t' rule: readValue.induct)
  case (1 s buf cap spare t)
  let ?cap = "if spare < minRead then 2 * cap + minRead else cap"
  let ?spare = "if spare < minRead then spare + cap + minRead else spare"
  obtain d eof t1 where rd: "TeeReader_Read t ?spare = (d, eof, t1)"
    by (cases "TeeReader_Read t ?spare") auto
  from TeeReader_Read_conserves [OF rd]
  have c: "snd t1 @ concat (fst t1) = snd t @ concat (fst t)" by simp
  show ?case
  proof (cases "scanBuf s d (length buf)")
    case (Break k)
    with "1.prems" rd have "t' = t1"
      by (subst (asm) readValue.simps) (simp add: Let_def)
    with c show ?thesis by simp
  next
    case (Return x)
    with "1.prems" rd have "t' = t1"
      by (subst (asm) readValue.simps) (simp add: Let_def)
    with c show ?thesis by simp
  next
    case (More s')
    show ?thesis
    proof (cases eof)
      case True
      with "1.prems" rd More have "t' = t1"
        by (subst (asm) readValue.simps) (simp add: Let_def split: if_splits)
      with c show ?thesis by simp
    next
      case False
      with "1.prems" rd More
      have r: "readValue s' (buf @ d) ?cap (?spare - length d) t1 = (n, e, buf', t')"
        by (subst (asm) readValue.simps) (simp add: Let_def)
      have "snd t' @ concat (fst t') = snd t1 @ concat (fst t1)"
        by (rule "1.IH" [OF refl refl rd [symmetric] refl More False r])
      with c show ?thesis by simp
    qed
  qed
qed

lemma Decode_conserves:
  assumes "Decode (body, []) = (e, q, unread, b)"
  shows "concat body = b @ concat unread"
proof -
  obtain n x buf t' where r: "readValue reset [] 0 0 (body, []) = (n, x, buf, t')"
    by (cases "readValue reset [] 0 0 (body, [])") auto
  with assms have "t' = (unread, b)"
    by (auto simp: Decode_def split: option.splits prod.splits)
  with readValue_conserves [OF r] show ?thesis by simp
qed

text \<open>A body without a byte: every read returns nothing, until the reader reports the end.\<close>

lemma readValue_no_bytes:
  "concat r = [] \<Longrightarrow>
   readValue s buf cap spare (r, b) =
     (if fst (scan_step s (CHR '' '')) = scanEnd then (length buf, None, buf, ([], b))
      else if nonSpace buf then (0, Some ErrUnexpectedEOF, buf, ([], b))
      else (0, Some EOF, buf, ([], b)))"
proof (induction r arbitrary: cap spare)
  case Nil
  show ?case
    by (subst readValue.simps) (simp add: Let_def TeeReader_Read_def)
next
  case (Cons c r)
  then have c: "c = []" and r: "concat r = []" by simp_all
  show ?case
    by (subst readValue.simps) (simp add: Let_def TeeReader_Read_def c Cons.IH [OF r])
qed

lemma Decode_no_bytes:
  "concat body = [] \<Longrightarrow> Decode (body, []) = (Some EOF, \<lparr>MaxAge = 0\<rparr>, [], [])"
proof -
  assume "concat body = []"
  then have "readValue reset [] 0 0 (body, []) = (0, Some EOF, [], [], [])"
    by (simp add: readValue_no_bytes reset_def scan_step_def stateBeginValue_def
        isSpace_def nonSpace_def)
  then show ?thesis by (simp add: Decode_def)
qed

lemma scanBuf_append_Break:
  "scanBuf s xs n = Break k \<Longrightarrow> scanBuf s (xs @ ys) n = Break k"
  by (induction s xs n rule: scanBuf.induct) (auto split: prod.splits if_splits)

text \<open>The decoder on the bodies of the examples below.\<close>

lemma Decode_max_age_5:
  \<open>Decode ([''{"max_age":5}''], []) = (None, \<lparr>MaxAge = 5\<rparr>, [], ''{"max_age":5}'')\<close>
  by code_simp

lemma Decode_max_age_0:
  \<open>Decode ([''{"max_age":0}''], []) = (None, \<lparr>MaxAge = 0\<rparr>, [], ''{"max_age":0}'')\<close>
  by code_simp

lemma Decode_max_age_string:
  \<open>Decode ([''{"max_age":"5"}''], []) =
     (Some (UnmarshalTypeError ''string'' ''max_age''), \<lparr>MaxAge = 0\<rparr>, [], ''{"max_age":"5"}'')\<close>
  by code_simp

lemma scanBuf_max_age_1: \<open>scanBuf reset ''{"max_age":1}'' 0 = Break 13\<close>
  by code_simp

lemma unmarshal_max_age_1: \<open>unmarshal ''{"max_age":1}'' = (None, \<lparr>MaxAge = 1\<rparr>)\<close>
  by code_simp

lemma Decode_long_body:
  \<open>Decode ([''{"max_age":1}'' @ replicate 600 (CHR '' '')], []) =
     (None, \<lparr>MaxAge = 1\<rparr>, [replicate 101 (CHR '' '')],
      ''{"max_age":1}'' @ replicate 499 (CHR '' ''))\<close>
proof -
  define v where \<open>v = ''{"max_age":1}''\<close>
  define c where "c = v @ replicate 600 (CHR '' '')"
  define w where "w = v @ replicate 499 (CHR '' '')"
  define u where "u = replicate 101 (CHR '' '')"
  have lv: "length v = 13" by (simp add: v_def)
  have t: "take 512 c = w" and dr: "drop 512 c = u" and lc: "\<not> length c \<le> 512"
    by (simp_all add: c_def w_def u_def lv)
  have rd: "TeeReader_Read ([c], []) 512 = (w, False, ([u], w))"
    by (simp add: TeeReader_Read_def t dr lc)
  have sc: "scanBuf reset w 0 = Break 13"
    unfolding w_def v_def by (rule scanBuf_append_Break [OF scanBuf_max_age_1])
  have rv: "readValue reset [] 0 0 ([c], []) = (13, None, w, ([u], w))"
    by (subst readValue.simps) (simp add: Let_def minRead_def rd sc)
  have tk: "take 13 w = v" by (simp add: w_def lv)
  have um: "unmarshal v = (None, \<lparr>MaxAge = 1\<rparr>)"
    unfolding v_def by (rule unmarshal_max_age_1)
  have "Decode ([c], []) = (None, \<lparr>MaxAge = 1\<rparr>, [u], w)"
    by (simp add: Decode_def rv tk um)
  then show ?thesis unfolding c_def w_def u_def v_def .
qed

section \<open>Properties of the handler\<close>

lemma Cookie_absent:
  "''remember_token'' \<notin> fst ` set (Cookies r) \<Longrightarrow> Cookie r ''remember_token'' = None"
  by (simp add: Cookie_def map_of_eq_None_iff)

lemma Cookie_abc:
  "Cookie \<lparr>Cookies = [(''remember_token'', ''abc'')], Body = b\<rparr> ''remember_token'' = Some ''abc''"
  by (simp add: Cookie_def)

lemma LimitMiddleware_no_cookie:
  "Cookie r ''remember_token'' = None \<Longrightarrow>
   LimitMiddleware rl h now r = ((Write new_ResponseWriter ''No cookie found'', None), rl, h)"
  by (simp add: LimitMiddleware_def)

lemma LimitMiddleware_parse_error:
  "Cookie r ''remember_token'' = Some tok \<Longrightarrow> Decode (Body r, []) = (Some e, q, t) \<Longrightarrow>
   LimitMiddleware rl h now r =
     ((Write new_ResponseWriter (''Error parsing request body'' @ Error e), None), rl, h)"
  by (cases t) (simp add: LimitMiddleware_def)

lemma LimitMiddleware_checked:
  "Cookie r ''remember_token'' = Some tok \<Longrightarrow> Decode (Body r, []) = (None, q, unread, b) \<Longrightarrow>
   GetLimiter rl h tok = (p, rl', h') \<Longrightarrow> Allow (h' ! p) now = (ok, l') \<Longrightarrow>
   LimitMiddleware rl h now r =
     (if \<not> ok \<and> MaxAge q = 0
      then ((Write (Header_Set new_ResponseWriter ''Content-Type'' ''application/json'') RLPayload,
             None), rl', h'[p := l'])
      else ((new_ResponseWriter, Some (r\<lparr>Body := Buffer_body b\<rparr>)), rl', h'[p := l']))"
  by (simp add: LimitMiddleware_def)

lemma advance_le_capacity: "advance l t \<le> of_int (capacity l)"
  by (simp add: advance_def Let_def)

lemma advance_after_Allow:
  assumes "Allow l t = (ok, l')"
  shows "advance l' t = (if 1 \<le> advance l t then advance l t - 1 else advance l t)"
proof -
  from Allow_cases [OF assms] show ?thesis
  proof
    assume h: "ok \<and> 1 \<le> advance l t \<and> l' = l\<lparr>tokens := advance l t - 1, last_time := t\<rparr>"
    have "advance (l\<lparr>tokens := advance l t - 1, last_time := t\<rparr>) t =
          min (of_int (capacity l)) (advance l t - 1 + Seconds (t - t) * limit l)"
      using advance_eq [of "l\<lparr>tokens := advance l t - 1, last_time := t\<rparr>" t] by simp
    also have "\<dots> = advance l t - 1"
      using advance_le_capacity [of l t] by (simp add: Seconds_def)
    finally show ?thesis using h by simp
  next
    assume h: "\<not> ok \<and> l' = l"
    with assms have "\<not> 1 \<le> advance l t"
      by (auto simp: Allow_def Let_def split: if_splits)
    with h show ?thesis by simp
  qed
qed

lemma GetLimiter_valid:
  assumes v: "valid rl h" and g: "GetLimiter rl h tok = (p, rl', h')"
  shows "valid rl' h'" and "p < length h'" and "limiters rl' tok = Some p"
    and "h' ! p = limiter_of rl h tok" and "rate rl' = rate rl" and "burst rl' = burst rl"
proof -
  show "limiters rl' tok = Some p" by (rule GetLimiter_stores [OF g])
  show "rate rl' = rate rl" "burst rl' = burst rl"
    using g by (auto simp: GetLimiter_def split: option.splits)
  show "valid rl' h'"
  proof (cases "limiters rl tok")
    case None
    with g have e: "p = length h" "rl' = rl\<lparr>limiters := (limiters rl)(tok \<mapsto> length h)\<rparr>"
      "h' = h @ [NewLimiter (rate rl) (burst rl)]"
      by (auto simp: GetLimiter_def)
    from v have "\<forall>token q. limiters rl token = Some q \<longrightarrow> q < length h"
      and "\<forall>t1 t2 q. limiters rl t1 = Some q \<and> limiters rl t2 = Some q \<longrightarrow> t1 = t2"
      by (simp_all add: valid_def)
    then show ?thesis using None unfolding e valid_def
      by (auto simp: less_Suc_eq split: if_splits)
  next
    case (Some q)
    with g have "rl' = rl" "h' = h" by (simp_all add: GetLimiter_def)
    with v show ?thesis by simp
  qed
  show "p < length h'"
    using v g by (auto simp: GetLimiter_def valid_def less_Suc_eq split: option.splits)
  show "h' ! p = limiter_of rl h tok"
    using g by (auto simp: GetLimiter_def limiter_of_def bucket_def split: option.splits)
qed

lemma valid_update: "valid rl h \<Longrightarrow> valid rl (h[p := l])"
  by (simp add: valid_def)

lemma GetLimiter_frame:
  assumes v: "valid rl h" and g: "GetLimiter rl h tok = (p, rl', h')" and ne: "tok \<noteq> tok2"
  shows "bucket rl' (h'[p := l]) tok2 = bucket rl h tok2"
proof (cases "limiters rl tok")
  case None
  with g have e: "p = length h" "rl' = rl\<lparr>limiters := (limiters rl)(tok \<mapsto> length h)\<rparr>"
    "h' = h @ [NewLimiter (rate rl) (burst rl)]"
    by (auto simp: GetLimiter_def)
  show ?thesis
  proof (cases "limiters rl tok2")
    case None
    then show ?thesis using ne unfolding e by (simp add: bucket_def)
  next
    case (Some q)
    with v have "q < length h" by (auto simp: valid_def)
    then show ?thesis using ne Some unfolding e by (simp add: bucket_def nth_append)
  qed
next
  case (Some q)
  with g have e: "p = q" "rl' = rl" "h' = h" by (simp_all add: GetLimiter_def)
  show ?thesis
  proof (cases "limiters rl tok2")
    case None
    then show ?thesis unfolding e by (simp add: bucket_def)
  next
    case (Some q2)
    with v \<open>limiters rl tok = Some q\<close> ne have "q2 \<noteq> q" by (auto simp: valid_def)
    then show ?thesis using Some unfolding e by (simp add: bucket_def)
  qed
qed

lemma checked_iff:
  "Cookie r ''remember_token'' = Some tok \<Longrightarrow> Decode (Body r, []) = (e, q, t) \<Longrightarrow>
   checked r tok2 \<longleftrightarrow> tok2 = tok \<and> e = None"
  by (auto simp: checked_def)

text \<open>What one request does to the registry and to every bucket.\<close>

lemma LimitMiddleware_bucket:
  assumes v: "valid rl h" and m: "LimitMiddleware rl h now r = (out, rl', h')"
  shows "valid rl' h'" and "rate rl' = rate rl" and "burst rl' = burst rl"
    and "bucket rl' h' tok2 =
         (if checked r tok2 then Some (snd (Allow (limiter_of rl h tok2) now))
          else bucket rl h tok2)"
proof -
  have "valid rl' h' \<and> rate rl' = rate rl \<and> burst rl' = burst rl \<and>
        bucket rl' h' tok2 =
         (if checked r tok2 then Some (snd (Allow (limiter_of rl h tok2) now))
          else bucket rl h tok2)"
  proof (cases "Cookie r ''remember_token''")
    case None
    with m have "rl' = rl" "h' = h" by (simp_all add: LimitMiddleware_no_cookie)
    with v None show ?thesis by (simp add: checked_def)
  next
    case (Some tok)
    obtain e q unread b where d: "Decode (Body r, []) = (e, q, unread, b)"
      by (cases "Decode (Body r, [])") auto
    show ?thesis
    proof (cases e)
      case (Some x)
      with m d \<open>Cookie r ''remember_token'' = Some tok\<close> have "rl' = rl" "h' = h"
        by (simp_all add: LimitMiddleware_parse_error)
      with v d Some \<open>Cookie r ''remember_token'' = Some tok\<close> show ?thesis
        by (simp add: checked_def)
    next
      case None
      obtain p rl1 h1 where g: "GetLimiter rl h tok = (p, rl1, h1)"
        by (cases "GetLimiter rl h tok") auto
      obtain ok l' where a: "Allow (h1 ! p) now = (ok, l')"
        by (cases "Allow (h1 ! p) now") auto
      note G = GetLimiter_valid [OF v g]
      from m have e: "rl' = rl1" "h' = h1[p := l']"
        using LimitMiddleware_checked [OF \<open>Cookie r ''remember_token'' = Some tok\<close> d [unfolded None] g a]
        by (auto split: if_splits)
      have c: "checked r tok2 \<longleftrightarrow> tok2 = tok"
        using checked_iff [OF \<open>Cookie r ''remember_token'' = Some tok\<close> d] None by simp
      have "bucket rl1 (h1[p := l']) tok2 =
            (if tok2 = tok then Some (snd (Allow (limiter_of rl h tok2) now)) else bucket rl h tok2)"
      proof (cases "tok2 = tok")
        case True
        have "bucket rl1 (h1[p := l']) tok = Some l'"
          using G(2,3) by (simp add: bucket_def)
        moreover have "l' = snd (Allow (limiter_of rl h tok) now)"
          using a G(4) by simp
        ultimately show ?thesis using True by simp
      next
        case False
        then have "tok \<noteq> tok2" by simp
        from GetLimiter_frame [OF v g this] False show ?thesis by simp
      qed
      then show ?thesis
        using G(1,5,6) valid_update [OF G(1)] unfolding e c by simp
    qed
  qed
  then show "valid rl' h'" and "rate rl' = rate rl" and "burst rl' = burst rl"
    and "bucket rl' h' tok2 =
         (if checked r tok2 then Some (snd (Allow (limiter_of rl h tok2) now))
          else bucket rl h tok2)"
    by simp_all
qed

lemma limiter_of_cong:
  "bucket rla ha tok = bucket rlb hb tok \<Longrightarrow> rate rla = rate rlb \<Longrightarrow> burst rla = burst rlb \<Longrightarrow>
   limiter_of rla ha tok = limiter_of rlb hb tok"
  by (simp add: limiter_of_def split: option.splits)

lemma serve_without_other:
  "valid rla ha \<Longrightarrow> valid rlb hb \<Longrightarrow> rate rla = rate rlb \<Longrightarrow> burst rla = burst rlb \<Longrightarrow>
   bucket rla ha tok2 = bucket rlb hb tok2 \<Longrightarrow> tok1 \<noteq> tok2 \<Longrightarrow>
   serve rla ha rs = (rl1, h1) \<Longrightarrow>
   serve rlb hb (filter (\<lambda>(now, r). Cookie r ''remember_token'' \<noteq> Some tok1) rs) = (rl2, h2) \<Longrightarrow>
   bucket rl1 h1 tok2 = bucket rl2 h2 tok2 \<and> rate rl1 = rate rl2 \<and> burst rl1 = burst rl2"
proof (induction rs arbitrary: rla ha rlb hb)
  case Nil
  then show ?case by simp
next
  case (Cons x rs)
  obtain now r where x: "x = (now, r)" by (cases x)
  obtain oa rla' ha' where ma: "LimitMiddleware rla ha now r = (oa, rla', ha')"
    by (cases "LimitMiddleware rla ha now r") auto
  note A = LimitMiddleware_bucket [OF Cons.prems(1) ma]
  have sa: "serve rla' ha' rs = (rl1, h1)"
    using Cons.prems(7) x ma by simp
  show ?case
  proof (cases "Cookie r ''remember_token'' = Some tok1")
    case True
    then have "\<not> checked r tok2" using Cons.prems(6) by (simp add: checked_def)
    with A(4) [of tok2] have b: "bucket rla' ha' tok2 = bucket rlb hb tok2"
      using Cons.prems(5) by simp
    have sb: "serve rlb hb (filter (\<lambda>(now, r). Cookie r ''remember_token'' \<noteq> Some tok1) rs) = (rl2, h2)"
      using Cons.prems(8) x True by simp
    show ?thesis
      by (rule Cons.IH [OF A(1) Cons.prems(2) _ _ b Cons.prems(6) sa sb])
         (simp_all add: A(2,3) Cons.prems(3,4))
  next
    case False
    obtain ob rlb' hb' where mb: "LimitMiddleware rlb hb now r = (ob, rlb', hb')"
      by (cases "LimitMiddleware rlb hb now r") auto
    note B = LimitMiddleware_bucket [OF Cons.prems(2) mb]
    have l: "limiter_of rla ha tok2 = limiter_of rlb hb tok2"
      by (rule limiter_of_cong [OF Cons.prems(5,3,4)])
    have b: "bucket rla' ha' tok2 = bucket rlb' hb' tok2"
      using A(4) [of tok2] B(4) [of tok2] l Cons.prems(5) by simp
    have sb: "serve rlb' hb' (filter (\<lambda>(now, r). Cookie r ''remember_token'' \<noteq> Some tok1) rs) = (rl2, h2)"
      using Cons.prems(8) x False mb by simp
    show ?thesis
      by (rule Cons.IH [OF A(1) B(1) _ _ b Cons.prems(6) sa sb])
         (simp_all add: A(2,3) B(2,3) Cons.prems(3,4))
  qed
qed

lemma valid_Flusher_tick: "valid rl h \<Longrightarrow> valid (Flusher_tick rl) h"
  by (simp add: valid_def Flusher_tick_def)

text \<open>
  Every state the program reaches keeps the rate and burst of \<^verbatim>\<open>main\<close>, and in it
  the map points into the heap with no limiter shared between identities.
\<close>

lemma reachable_valid:
  "reachable rl h \<Longrightarrow> valid rl h \<and> rate rl = Every Minute \<and> burst rl = 15"
proof (induction rule: reachable.induct)
  case start
  show ?case
    by (simp add: valid_def main_rateLimiters_def NewRateLimiters_def)
next
  case (request rl h now r out rl' h')
  then have v: "valid rl h" by simp
  from LimitMiddleware_bucket(1-3) [OF v request.hyps(2)] request.IH show ?case by simp
next
  case (tick rl h)
  then show ?case by (simp add: valid_Flusher_tick) (simp add: Flusher_tick_def)
qed

text \<open>The states of the examples below: the registry of \<^verbatim>\<open>main\<close> before any request, and a
  registry whose only bucket is empty.\<close>

lemma valid_main: "valid main_rateLimiters []"
  by (simp add: valid_def main_rateLimiters_def NewRateLimiters_def)

lemma GetLimiter_main_abc:
  "GetLimiter main_rateLimiters [] ''abc'' =
     (0, main_rateLimiters\<lparr>limiters := [''abc'' \<mapsto> 0]\<rparr>, [NewLimiter (1 / 60) 15])"
  by (simp add: GetLimiter_def main_rateLimiters_def NewRateLimiters_def Every_Minute)

lemma Allow_first:
  "Allow (NewLimiter (1 / 60) 15) 0 = (True, \<lparr>limit = 1 / 60, capacity = 15, tokens = 14, last_time = 0\<rparr>)"
  by (simp add: Allow_NewLimiter) (simp add: NewLimiter_def)

lemma valid_exhausted:
  "valid (main_rateLimiters\<lparr>limiters := [''abc'' \<mapsto> 0]\<rparr>)
     [\<lparr>limit = 1 / 60, capacity = 15, tokens = 0, last_time = 7\<rparr>]"
  by (simp add: valid_def)

lemma GetLimiter_exhausted:
  "GetLimiter (main_rateLimiters\<lparr>limiters := [''abc'' \<mapsto> 0]\<rparr>)
     [\<lparr>limit = 1 / 60, capacity = 15, tokens = 0, last_time = 7\<rparr>] ''abc'' =
   (0, main_rateLimiters\<lparr>limiters := [''abc'' \<mapsto> 0]\<rparr>,
    [\<lparr>limit = 1 / 60, capacity = 15, tokens = 0, last_time = 7\<rparr>])"
  by (simp add: GetLimiter_def)

lemma Allow_exhausted:
  "Allow \<lparr>limit = 1 / 60, capacity = 15, tokens = 0, last_time = 7\<rparr> 7 =
     (False, \<lparr>limit = 1 / 60, capacity = 15, tokens = 0, last_time = 7\<rparr>)"
  by (simp add: Allow_def advance_def tokensFromDuration_def Seconds_def)

text \<open>What is forwarded is what the decoder has read: a prefix of the body.\<close>

lemma forwarded_body_read:
  assumes "LimitMiddleware rl h now r = ((w, Some r'), rl', h')"
  shows "\<exists>unread. Decode (Body r, []) = (None, fst (snd (Decode (Body r, []))), unread, concat (Body r'))
           \<and> concat (Body r) = concat (Body r') @ concat unread"
proof -
  obtain tok where c: "Cookie r ''remember_token'' = Some tok"
    using assms by (cases "Cookie r ''remember_token''") (auto simp: LimitMiddleware_no_cookie)
  obtain e q unread b where d: "Decode (Body r, []) = (e, q, unread, b)"
    by (cases "Decode (Body r, [])") auto
  have e: "e = None"
    using assms c d by (cases e) (auto simp: LimitMiddleware_parse_error)
  obtain p rl1 h1 where g: "GetLimiter rl h tok = (p, rl1, h1)"
    by (cases "GetLimiter rl h tok") auto
  obtain ok l' where a: "Allow (h1 ! p) now = (ok, l')" by (cases "Allow (h1 ! p) now") auto
  from LimitMiddleware_checked [OF c d [unfolded e] g a] assms
  have "r' = r\<lparr>Body := Buffer_body b\<rparr>" by (auto split: if_splits)
  then have "concat (Body r') = b" by (simp add: Buffer_body_def)
  with Decode_conserves [OF d] d e show ?thesis by simp
qed

text \<open>
  C1, as stated, fails: the handler calls \<^verbatim>\<open>Allow\<close> before it looks at
  \<^verbatim>\<open>max_age\<close>, so an overridden request takes a token when there is one. The first
  request of an identity with \<^verbatim>\<open>max_age\<close> 5 is forwarded, and the bucket, which
  refill alone leaves at 15 tokens, holds 14 afterwards.
\<close>

theorem override_takes_token_counterexample:
  \<open>snd (fst (LimitMiddleware main_rateLimiters [] 0
       \<lparr>Cookies = [(''remember_token'', ''abc'')], Body = [''{"max_age":5}'']\<rparr>)) \<noteq> None \<and>
   tokens_at main_rateLimiters [] ''abc'' 0 = 15 \<and>
   tokens_at
     (fst (snd (LimitMiddleware main_rateLimiters [] 0
        \<lparr>Cookies = [(''remember_token'', ''abc'')], Body = [''{"max_age":5}'']\<rparr>)))
     (snd (snd (LimitMiddleware main_rateLimiters [] 0
        \<lparr>Cookies = [(''remember_token'', ''abc'')], Body = [''{"max_age":5}'']\<rparr>)))
     ''abc'' 0 = 14\<close>
proof -
  let ?r = \<open>\<lparr>Cookies = [(''remember_token'', ''abc'')], Body = [''{"max_age":5}'']\<rparr>\<close>
  let ?l = "\<lparr>limit = 1 / 60, capacity = 15, tokens = 14, last_time = 0\<rparr>"
  have d: \<open>Decode (Body ?r, []) = (None, \<lparr>MaxAge = 5\<rparr>, [], ''{"max_age":5}'')\<close>
    using Decode_max_age_5 by simp
  have a: "Allow ([NewLimiter (1 / 60) 15] ! 0) 0 = (True, ?l)"
    using Allow_first by simp
  have m: \<open>LimitMiddleware main_rateLimiters [] 0 ?r =
      ((new_ResponseWriter, Some (?r\<lparr>Body := Buffer_body ''{"max_age":5}''\<rparr>)),
       main_rateLimiters\<lparr>limiters := [''abc'' \<mapsto> 0]\<rparr>, [?l])\<close>
    using LimitMiddleware_checked [OF Cookie_abc d GetLimiter_main_abc a] by simp
  have before: "tokens_at main_rateLimiters [] ''abc'' 0 = 15"
    by (simp add: tokens_at_def limiter_of_def bucket_def main_rateLimiters_def
        NewRateLimiters_def advance_NewLimiter Every_Minute)
  have after: "tokens_at (main_rateLimiters\<lparr>limiters := [''abc'' \<mapsto> 0]\<rparr>) [?l] ''abc'' 0 = 14"
    by (simp add: tokens_at_def limiter_of_def bucket_def advance_def tokensFromDuration_def
        Seconds_def)
  show ?thesis unfolding m using before after by simp
qed

text \<open>
  C1, amended. A request with the cookie and a body that decodes with a
  \<^verbatim>\<open>max_age\<close> other than zero is passed on whatever the bucket holds, with nothing
  written to the response. The check still runs one \<^verbatim>\<open>Allow\<close> on the bucket of the
  identity: afterwards the bucket holds one token less than refill alone gives when
  that was at least one, and exactly what refill gives when it was less.
\<close>

theorem override_admitted_token_taken:
  "Cookie r ''remember_token'' = Some tok \<Longrightarrow> Decode (Body r, []) = (None, q, unread, b) \<Longrightarrow>
   MaxAge q \<noteq> 0 \<Longrightarrow>
   (case LimitMiddleware rl h now r of
      ((w, fwd), rl', h') \<Rightarrow>
        w = new_ResponseWriter \<and> fwd = Some (r\<lparr>Body := Buffer_body b\<rparr>) \<and>
        (valid rl h \<longrightarrow>
           bucket rl' h' tok = Some (snd (Allow (limiter_of rl h tok) now)) \<and>
           tokens_at rl' h' tok now =
             (if 1 \<le> tokens_at rl h tok now then tokens_at rl h tok now - 1
              else tokens_at rl h tok now)))"
proof -
  assume c: "Cookie r ''remember_token'' = Some tok"
    and d: "Decode (Body r, []) = (None, q, unread, b)" and nz: "MaxAge q \<noteq> 0"
  obtain w fwd rl' h' where m: "LimitMiddleware rl h now r = ((w, fwd), rl', h')"
    by (cases "LimitMiddleware rl h now r") auto
  obtain p rl1 h1 where g: "GetLimiter rl h tok = (p, rl1, h1)"
    by (cases "GetLimiter rl h tok") auto
  obtain ok l' where a: "Allow (h1 ! p) now = (ok, l')" by (cases "Allow (h1 ! p) now") auto
  from LimitMiddleware_checked [OF c d g a] nz m
  have wf: "w = new_ResponseWriter" "fwd = Some (r\<lparr>Body := Buffer_body b\<rparr>)" by simp_all
  have "bucket rl' h' tok = Some (snd (Allow (limiter_of rl h tok) now)) \<and>
        tokens_at rl' h' tok now =
             (if 1 \<le> tokens_at rl h tok now then tokens_at rl h tok now - 1
              else tokens_at rl h tok now)" if v: "valid rl h"
  proof -
    have ch: "checked r tok" using c d by (simp add: checked_def)
    from LimitMiddleware_bucket(4) [OF v m, of tok] ch
    have bk: "bucket rl' h' tok = Some (snd (Allow (limiter_of rl h tok) now))" by simp
    then have "limiter_of rl' h' tok = snd (Allow (limiter_of rl h tok) now)"
      by (simp add: limiter_of_def)
    then have "tokens_at rl' h' tok now = advance (snd (Allow (limiter_of rl h tok) now)) now"
      by (simp add: tokens_at_def)
    also have "\<dots> = (if 1 \<le> advance (limiter_of rl h tok) now
                      then advance (limiter_of rl h tok) now - 1
                      else advance (limiter_of rl h tok) now)"
      by (rule advance_after_Allow) (rule prod.collapse [symmetric])
    finally show ?thesis using bk by (simp add: tokens_at_def)
  qed
  with wf m show ?thesis by simp
qed

theorem override_admitted_token_taken_witness:
  \<open>Cookie \<lparr>Cookies = [(''remember_token'', ''abc'')], Body = [''{"max_age":5}'']\<rparr>
      ''remember_token'' = Some ''abc'' \<and>
   Decode (Body \<lparr>Cookies = [(''remember_token'', ''abc'')], Body = [''{"max_age":5}'']\<rparr>, []) =
      (None, \<lparr>MaxAge = 5\<rparr>, [], ''{"max_age":5}'') \<and>
   MaxAge \<lparr>MaxAge = 5\<rparr> \<noteq> 0 \<and>
   valid (main_rateLimiters\<lparr>limiters := [''abc'' \<mapsto> 0]\<rparr>)
     [\<lparr>limit = 1 / 60, capacity = 15, tokens = 0, last_time = 7\<rparr>] \<and>
   \<not> fst (Allow (limiter_of (main_rateLimiters\<lparr>limiters := [''abc'' \<mapsto> 0]\<rparr>)
     [\<lparr>limit = 1 / 60, capacity = 15, tokens = 0, last_time = 7\<rparr>] ''abc'') 7) \<and>
   (case LimitMiddleware (main_rateLimiters\<lparr>limiters := [''abc'' \<mapsto> 0]\<rparr>)
           [\<lparr>limit = 1 / 60, capacity = 15, tokens = 0, last_time = 7\<rparr>] 7
           \<lparr>Cookies = [(''remember_token'', ''abc'')], Body = [''{"max_age":5}'']\<rparr> of
      ((w, fwd), rl', h') \<Rightarrow>
        w = new_ResponseWriter \<and>
        fwd = Some (\<lparr>Cookies = [(''remember_token'', ''abc'')], Body = [''{"max_age":5}'']\<rparr>
                      \<lparr>Body := Buffer_body ''{"max_age":5}''\<rparr>) \<and>
        (valid (main_rateLimiters\<lparr>limiters := [''abc'' \<mapsto> 0]\<rparr>)
           [\<lparr>limit = 1 / 60, capacity = 15, tokens = 0, last_time = 7\<rparr>] \<longrightarrow>
           bucket rl' h' ''abc'' =
             Some (snd (Allow (limiter_of (main_rateLimiters\<lparr>limiters := [''abc'' \<mapsto> 0]\<rparr>)
               [\<lparr>limit = 1 / 60, capacity = 15, tokens = 0, last_time = 7\<rparr>] ''abc'') 7)) \<and>
           tokens_at rl' h' ''abc'' 7 =
             (if 1 \<le> tokens_at (main_rateLimiters\<lparr>limiters := [''abc'' \<mapsto> 0]\<rparr>)
                        [\<lparr>limit = 1 / 60, capacity = 15, tokens = 0, last_time = 7\<rparr>] ''abc'' 7
              then tokens_at (main_rateLimiters\<lparr>limiters := [''abc'' \<mapsto> 0]\<rparr>)
                     [\<lparr>limit = 1 / 60, capacity = 15, tokens = 0, last_time = 7\<rparr>] ''abc'' 7 - 1
              else tokens_at (main_rateLimiters\<lparr>limiters := [''abc'' \<mapsto> 0]\<rparr>)
                     [\<lparr>limit = 1 / 60, capacity = 15, tokens = 0, last_time = 7\<rparr>] ''abc'' 7)))\<close>
proof -
  let ?r = \<open>\<lparr>Cookies = [(''remember_token'', ''abc'')], Body = [''{"max_age":5}'']\<rparr>\<close>
  have c: "Cookie ?r ''remember_token'' = Some ''abc''" by (rule Cookie_abc)
  have d: \<open>Decode (Body ?r, []) = (None, \<lparr>MaxAge = 5\<rparr>, [], ''{"max_age":5}'')\<close>
    using Decode_max_age_5 by simp
  have n: "MaxAge \<lparr>MaxAge = 5\<rparr> \<noteq> 0" by simp
  have a: "\<not> fst (Allow (limiter_of (main_rateLimiters\<lparr>limiters := [''abc'' \<mapsto> 0]\<rparr>)
     [\<lparr>limit = 1 / 60, capacity = 15, tokens = 0, last_time = 7\<rparr>] ''abc'') 7)"
    by (simp add: limiter_of_def bucket_def Allow_exhausted)
  from override_admitted_token_taken [OF c d n,
      of "main_rateLimiters\<lparr>limiters := [''abc'' \<mapsto> 0]\<rparr>"
         "[\<lparr>limit = 1 / 60, capacity = 15, tokens = 0, last_time = 7\<rparr>]" 7]
    c d n valid_exhausted a
  show ?thesis by blast
qed

text \<open>
  C2 fails on a body that goes on after the read in which its first JSON value
  ends. With the cookie and a body of 613 bytes, an object of 13 bytes followed by
  600 spaces, the decoder asks for 512 bytes, finds the object complete and reads no
  more; the request is passed on with the 512 bytes the tee reader has copied, not
  with the 613 of the body.
\<close>

theorem long_body_forwarded_truncated:
  \<open>snd (fst (LimitMiddleware main_rateLimiters [] 0
       \<lparr>Cookies = [(''remember_token'', ''abc'')],
        Body = [''{"max_age":1}'' @ replicate 600 (CHR '' '')]\<rparr>)) =
     Some \<lparr>Cookies = [(''remember_token'', ''abc'')],
           Body = [''{"max_age":1}'' @ replicate 499 (CHR '' '')]\<rparr> \<and>
   length (concat [''{"max_age":1}'' @ replicate 600 (CHR '' '')]) = 613 \<and>
   length (concat [''{"max_age":1}'' @ replicate 499 (CHR '' '')]) = 512\<close>
proof -
  let ?r = \<open>\<lparr>Cookies = [(''remember_token'', ''abc'')],
        Body = [''{"max_age":1}'' @ replicate 600 (CHR '' '')]\<rparr>\<close>
  let ?l = "\<lparr>limit = 1 / 60, capacity = 15, tokens = 14, last_time = 0\<rparr>"
  have d: \<open>Decode (Body ?r, []) = (None, \<lparr>MaxAge = 1\<rparr>, [replicate 101 (CHR '' '')],
      ''{"max_age":1}'' @ replicate 499 (CHR '' ''))\<close>
    using Decode_long_body by simp
  have a: "Allow ([NewLimiter (1 / 60) 15] ! 0) 0 = (True, ?l)"
    using Allow_first by simp
  have \<open>LimitMiddleware main_rateLimiters [] 0 ?r =
      ((new_ResponseWriter,
        Some (?r\<lparr>Body := Buffer_body (''{"max_age":1}'' @ replicate 499 (CHR '' ''))\<rparr>)),
       main_rateLimiters\<lparr>limiters := [''abc'' \<mapsto> 0]\<rparr>, [?l])\<close>
    using LimitMiddleware_checked [OF Cookie_abc d GetLimiter_main_abc a] by simp
  then show ?thesis by (simp add: Buffer_body_def)
qed

text \<open>
  C6. A request with the cookie whose body decodes with \<^verbatim>\<open>max_age\<close> zero, when
  \<^verbatim>\<open>Allow\<close> on the limiter of its identity returns false: the response has the
  header \<^verbatim>\<open>Content-Type: application/json\<close> and the body \<open>RLPayload\<close>, the handler
  sets no status code (so the client gets 200), and the request is not passed on.
\<close>

theorem rate_limited_rejected:
  "Cookie r ''remember_token'' = Some tok \<Longrightarrow> Decode (Body r, []) = (None, q, unread, b) \<Longrightarrow>
   MaxAge q = 0 \<Longrightarrow> GetLimiter rl h tok = (p, rl1, h1) \<Longrightarrow> \<not> fst (Allow (h1 ! p) now) \<Longrightarrow>
   (case LimitMiddleware rl h now r of
      ((w, fwd), rl', h') \<Rightarrow>
        Header w = [''Content-Type'' \<mapsto> [''application/json'']] \<and> Written w = RLPayload \<and>
        Status w = None \<and> StatusCode w = 200 \<and> fwd = None)"
proof -
  assume c: "Cookie r ''remember_token'' = Some tok"
    and d: "Decode (Body r, []) = (None, q, unread, b)"
    and z: "MaxAge q = 0" and g: "GetLimiter rl h tok = (p, rl1, h1)"
    and n: "\<not> fst (Allow (h1 ! p) now)"
  obtain ok l' where a: "Allow (h1 ! p) now = (ok, l')" by (cases "Allow (h1 ! p) now") auto
  with n have "\<not> ok" by simp
  with LimitMiddleware_checked [OF c d g a] z show ?thesis
    by (simp add: Write_def Header_Set_def new_ResponseWriter_def StatusCode_def)
qed

theorem rate_limited_rejected_witness:
  \<open>Cookie \<lparr>Cookies = [(''remember_token'', ''abc'')], Body = [''{"max_age":0}'']\<rparr>
      ''remember_token'' = Some ''abc'' \<and>
   Decode (Body \<lparr>Cookies = [(''remember_token'', ''abc'')], Body = [''{"max_age":0}'']\<rparr>, []) =
      (None, \<lparr>MaxAge = 0\<rparr>, [], ''{"max_age":0}'') \<and>
   MaxAge \<lparr>MaxAge = 0\<rparr> = 0 \<and>
   GetLimiter (main_rateLimiters\<lparr>limiters := [''abc'' \<mapsto> 0]\<rparr>)
     [\<lparr>limit = 1 / 60, capacity = 15, tokens = 0, last_time = 7\<rparr>] ''abc'' =
     (0, main_rateLimiters\<lparr>limiters := [''abc'' \<mapsto> 0]\<rparr>,
      [\<lparr>limit = 1 / 60, capacity = 15, tokens = 0, last_time = 7\<rparr>]) \<and>
   \<not> fst (Allow ([\<lparr>limit = 1 / 60, capacity = 15, tokens = 0, last_time = 7\<rparr>] ! 0) 7) \<and>
   (case LimitMiddleware (main_rateLimiters\<lparr>limiters := [''abc'' \<mapsto> 0]\<rparr>)
           [\<lparr>limit = 1 / 60, capacity = 15, tokens = 0, last_time = 7\<rparr>] 7
           \<lparr>Cookies = [(''remember_token'', ''abc'')], Body = [''{"max_age":0}'']\<rparr> of
      ((w, fwd), rl', h') \<Rightarrow>
        Header w = [''Content-Type'' \<mapsto> [''application/json'']] \<and> Written w = RLPayload \<and>
        Status w = None \<and> StatusCode w = 200 \<and> fwd = None)\<close>
proof -
  let ?r = \<open>\<lparr>Cookies = [(''remember_token'', ''abc'')], Body = [''{"max_age":0}'']\<rparr>\<close>
  have c: "Cookie ?r ''remember_token'' = Some ''abc''" by (rule Cookie_abc)
  have d: \<open>Decode (Body ?r, []) = (None, \<lparr>MaxAge = 0\<rparr>, [], ''{"max_age":0}'')\<close>
    using Decode_max_age_0 by simp
  have z: "MaxAge \<lparr>MaxAge = 0\<rparr> = 0" by simp
  have a: "\<not> fst (Allow ([\<lparr>limit = 1 / 60, capacity = 15, tokens = 0, last_time = 7\<rparr>] ! 0) 7)"
    by (simp add: Allow_exhausted)
  from rate_limited_rejected [OF c d z GetLimiter_exhausted a] c d z GetLimiter_exhausted a
  show ?thesis by blast
qed

text \<open>
  C7. For two different identities, a request of the first leaves the bucket of the
  second, and so its token count at any time, as it was. Over any sequence of
  requests, the bucket of the second identity ends as it would have ended had the
  requests of the first never been made.
\<close>

theorem identities_isolated:
  "valid rl h \<Longrightarrow> tok1 \<noteq> tok2 \<Longrightarrow>
   (Cookie r ''remember_token'' = Some tok1 \<longrightarrow>
      (case LimitMiddleware rl h now r of
         (out, rl', h') \<Rightarrow>
           bucket rl' h' tok2 = bucket rl h tok2 \<and>
           tokens_at rl' h' tok2 t = tokens_at rl h tok2 t)) \<and>
   (case serve rl h rs of
      (rl1, h1) \<Rightarrow>
        (case serve rl h (filter (\<lambda>(now, r). Cookie r ''remember_token'' \<noteq> Some tok1) rs) of
           (rl2, h2) \<Rightarrow>
             bucket rl1 h1 tok2 = bucket rl2 h2 tok2 \<and>
             tokens_at rl1 h1 tok2 t = tokens_at rl2 h2 tok2 t))"
proof -
  assume v: "valid rl h" and ne: "tok1 \<noteq> tok2"
  have one: "bucket rl' h' tok2 = bucket rl h tok2 \<and> tokens_at rl' h' tok2 t = tokens_at rl h tok2 t"
    if c: "Cookie r ''remember_token'' = Some tok1"
      and m: "LimitMiddleware rl h now r = (out, rl', h')" for out rl' h'
  proof -
    note A = LimitMiddleware_bucket [OF v m]
    have "\<not> checked r tok2" using c ne by (simp add: checked_def)
    with A(4) [of tok2] have b: "bucket rl' h' tok2 = bucket rl h tok2" by simp
    from limiter_of_cong [OF b A(2,3)] b show ?thesis by (simp add: tokens_at_def)
  qed
  have many: "bucket rl1 h1 tok2 = bucket rl2 h2 tok2 \<and> tokens_at rl1 h1 tok2 t = tokens_at rl2 h2 tok2 t"
    if s1: "serve rl h rs = (rl1, h1)"
      and s2: "serve rl h (filter (\<lambda>(now, r). Cookie r ''remember_token'' \<noteq> Some tok1) rs) = (rl2, h2)"
    for rl1 h1 rl2 h2
  proof -
    from serve_without_other [OF v v refl refl refl ne s1 s2]
    have b: "bucket rl1 h1 tok2 = bucket rl2 h2 tok2" and r: "rate rl1 = rate rl2"
      and u: "burst rl1 = burst rl2" by simp_all
    from limiter_of_cong [OF b r u] b show ?thesis by (simp add: tokens_at_def)
  qed
  from one many show ?thesis by (auto split: prod.splits)
qed

theorem identities_isolated_witness:
  \<open>valid main_rateLimiters [] \<and> ''abc'' \<noteq> ''xyz'' \<and>
   Cookie \<lparr>Cookies = [(''remember_token'', ''abc'')], Body = [''{"max_age":0}'']\<rparr>
      ''remember_token'' = Some ''abc'' \<and>
   (case LimitMiddleware main_rateLimiters [] 0
           \<lparr>Cookies = [(''remember_token'', ''abc'')], Body = [''{"max_age":0}'']\<rparr> of
      (out, rl', h') \<Rightarrow>
        bucket rl' h' ''xyz'' = bucket main_rateLimiters [] ''xyz'' \<and>
        tokens_at rl' h' ''xyz'' 0 = tokens_at main_rateLimiters [] ''xyz'' 0) \<and>
   (case serve main_rateLimiters []
           [(0, \<lparr>Cookies = [(''remember_token'', ''abc'')], Body = [''{"max_age":0}'']\<rparr>),
            (0, \<lparr>Cookies = [(''remember_token'', ''xyz'')], Body = [''{"max_age":0}'']\<rparr>),
            (0, \<lparr>Cookies = [(''remember_token'', ''abc'')], Body = [''{"max_age":0}'']\<rparr>)] of
      (rl1, h1) \<Rightarrow>
        (case serve main_rateLimiters []
                (filter (\<lambda>(now, r). Cookie r ''remember_token'' \<noteq> Some ''abc'')
                   [(0, \<lparr>Cookies = [(''remember_token'', ''abc'')], Body = [''{"max_age":0}'']\<rparr>),
                    (0, \<lparr>Cookies = [(''remember_token'', ''xyz'')], Body = [''{"max_age":0}'']\<rparr>),
                    (0, \<lparr>Cookies = [(''remember_token'', ''abc'')], Body = [''{"max_age":0}'']\<rparr>)]) of
           (rl2, h2) \<Rightarrow>
             bucket rl1 h1 ''xyz'' = bucket rl2 h2 ''xyz'' \<and>
             tokens_at rl1 h1 ''xyz'' 0 = tokens_at rl2 h2 ''xyz'' 0))\<close>
proof -
  have ne: "''abc'' \<noteq> ''xyz''" by simp
  have c: \<open>Cookie \<lparr>Cookies = [(''remember_token'', ''abc'')], Body = [''{"max_age":0}'']\<rparr>
      ''remember_token'' = Some ''abc''\<close> by (rule Cookie_abc)
  note T = identities_isolated [OF valid_main ne,
      of \<open>\<lparr>Cookies = [(''remember_token'', ''abc'')], Body = [''{"max_age":0}'']\<rparr>\<close> 0 0
         \<open>[(0, \<lparr>Cookies = [(''remember_token'', ''abc'')], Body = [''{"max_age":0}'']\<rparr>),
            (0, \<lparr>Cookies = [(''remember_token'', ''xyz'')], Body = [''{"max_age":0}'']\<rparr>),
            (0, \<lparr>Cookies = [(''remember_token'', ''abc'')], Body = [''{"max_age":0}'']\<rparr>)]\<close>]
  note a = T [THEN conjunct1, THEN mp, OF c]
  note b = T [THEN conjunct2]
  show ?thesis
    by (rule conjI [OF valid_main conjI [OF ne conjI [OF c conjI [OF a b]]]])
qed

text \<open>
  C8. A request without a \<^verbatim>\<open>remember_token\<close> cookie gets the body
  \<^verbatim>\<open>No cookie found\<close>; the handler sets no status code (so the client gets 200)
  and does not pass the request on.
\<close>

theorem no_cookie_rejected:
  "''remember_token'' \<notin> fst ` set (Cookies r) \<Longrightarrow>
   (case LimitMiddleware rl h now r of
      ((w, fwd), rl', h') \<Rightarrow>
        Written w = ''No cookie found'' \<and> Status w = None \<and> StatusCode w = 200 \<and> fwd = None)"
  by (simp add: LimitMiddleware_no_cookie [OF Cookie_absent] Write_def new_ResponseWriter_def
      StatusCode_def)

theorem no_cookie_rejected_witness:
  \<open>''remember_token'' \<notin> fst ` set (Cookies \<lparr>Cookies = [(''session'', ''s1'')], Body = [''{"max_age":0}'']\<rparr>) \<and>
   (case LimitMiddleware main_rateLimiters [] 0
           \<lparr>Cookies = [(''session'', ''s1'')], Body = [''{"max_age":0}'']\<rparr> of
      ((w, fwd), rl', h') \<Rightarrow>
        Written w = ''No cookie found'' \<and> Status w = None \<and> StatusCode w = 200 \<and> fwd = None)\<close>
proof -
  have a: \<open>''remember_token'' \<notin> fst ` set (Cookies \<lparr>Cookies = [(''session'', ''s1'')], Body = [''{"max_age":0}'']\<rparr>)\<close>
    by simp
  from no_cookie_rejected [OF a, of main_rateLimiters "[]" 0] a show ?thesis by blast
qed

text \<open>
  C9. A request with the cookie whose body fails to decode gets the body
  \<^verbatim>\<open>Error parsing request body\<close> followed at once by the text of the error; the
  handler sets no status code and does not pass the request on.
\<close>

theorem parse_error_rejected:
  "Cookie r ''remember_token'' = Some tok \<Longrightarrow> fst (Decode (Body r, [])) = Some e \<Longrightarrow>
   (case LimitMiddleware rl h now r of
      ((w, fwd), rl', h') \<Rightarrow>
        Written w = ''Error parsing request body'' @ Error e \<and> Status w = None \<and>
        StatusCode w = 200 \<and> fwd = None)"
proof -
  assume c: "Cookie r ''remember_token'' = Some tok" and d: "fst (Decode (Body r, [])) = Some e"
  obtain q t where "Decode (Body r, []) = (Some e, q, t)"
    using d by (cases "Decode (Body r, [])") auto
  from LimitMiddleware_parse_error [OF c this] show ?thesis
    by (simp add: Write_def new_ResponseWriter_def StatusCode_def)
qed

theorem parse_error_rejected_witness:
  \<open>Cookie \<lparr>Cookies = [(''remember_token'', ''abc'')], Body = [''{"max_age":"5"}'']\<rparr>
      ''remember_token'' = Some ''abc'' \<and>
   fst (Decode (Body \<lparr>Cookies = [(''remember_token'', ''abc'')], Body = [''{"max_age":"5"}'']\<rparr>, [])) =
      Some (UnmarshalTypeError ''string'' ''max_age'') \<and>
   (case LimitMiddleware main_rateLimiters [] 0
           \<lparr>Cookies = [(''remember_token'', ''abc'')], Body = [''{"max_age":"5"}'']\<rparr> of
      ((w, fwd), rl', h') \<Rightarrow>
        Written w = ''Error parsing request body'' @ Error (UnmarshalTypeError ''string'' ''max_age'') \<and>
        Status w = None \<and> StatusCode w = 200 \<and> fwd = None)\<close>
proof -
  let ?r = \<open>\<lparr>Cookies = [(''remember_token'', ''abc'')], Body = [''{"max_age":"5"}'']\<rparr>\<close>
  have c: "Cookie ?r ''remember_token'' = Some ''abc''" by (rule Cookie_abc)
  have d: "fst (Decode (Body ?r, [])) = Some (UnmarshalTypeError ''string'' ''max_age'')"
    using Decode_max_age_string by simp
  from parse_error_rejected [OF c d, of main_rateLimiters "[]" 0] c d show ?thesis by blast
qed

text \<open>
  C10. A request that is turned away before the rate-limit check, for a missing
  cookie or for a body that fails to decode, leaves the registry and every limiter
  as they were. A request with the cookie and a body without a byte is such a
  request: decoding fails with \<^verbatim>\<open>io.EOF\<close>.
\<close>

theorem early_rejection_keeps_registry:
  "(Cookie r ''remember_token'' = None \<or> fst (Decode (Body r, [])) \<noteq> None \<longrightarrow>
      snd (LimitMiddleware rl h now r) = (rl, h)) \<and>
   (Cookie r ''remember_token'' = Some tok \<and> concat (Body r) = [] \<longrightarrow>
      fst (Decode (Body r, [])) = Some EOF \<and>
      LimitMiddleware rl h now r =
        ((Write new_ResponseWriter (''Error parsing request body'' @ ''EOF''), None), rl, h))"
proof (intro conjI impI)
  assume a: "Cookie r ''remember_token'' = None \<or> fst (Decode (Body r, [])) \<noteq> None"
  show "snd (LimitMiddleware rl h now r) = (rl, h)"
  proof (cases "Cookie r ''remember_token''")
    case None
    then show ?thesis by (simp add: LimitMiddleware_no_cookie)
  next
    case (Some tok')
    with a obtain e q t where "Decode (Body r, []) = (Some e, q, t)"
      by (cases "Decode (Body r, [])") auto
    from LimitMiddleware_parse_error [OF Some this] show ?thesis by simp
  qed
next
  assume a: "Cookie r ''remember_token'' = Some tok \<and> concat (Body r) = []"
  then have d: "Decode (Body r, []) = (Some EOF, \<lparr>MaxAge = 0\<rparr>, [], [])"
    by (simp add: Decode_no_bytes)
  then show "fst (Decode (Body r, [])) = Some EOF" by simp
  from a LimitMiddleware_parse_error [OF _ d]
  show "LimitMiddleware rl h now r =
        ((Write new_ResponseWriter (''Error parsing request body'' @ ''EOF''), None), rl, h)"
    by (simp add: Error_def)
qed

theorem early_rejection_keeps_registry_witness:
  \<open>Cookie \<lparr>Cookies = [(''session'', ''s1'')], Body = [''{"max_age":0}'']\<rparr> ''remember_token'' = None \<and>
   snd (LimitMiddleware main_rateLimiters [] 0
          \<lparr>Cookies = [(''session'', ''s1'')], Body = [''{"max_age":0}'']\<rparr>) = (main_rateLimiters, []) \<and>
   Cookie \<lparr>Cookies = [(''remember_token'', ''abc'')], Body = []\<rparr> ''remember_token'' = Some ''abc'' \<and>
   concat (Body \<lparr>Cookies = [(''remember_token'', ''abc'')], Body = []\<rparr>) = [] \<and>
   fst (Decode (Body \<lparr>Cookies = [(''remember_token'', ''abc'')], Body = []\<rparr>, [])) = Some EOF \<and>
   LimitMiddleware main_rateLimiters [] 0 \<lparr>Cookies = [(''remember_token'', ''abc'')], Body = []\<rparr> =
     ((Write new_ResponseWriter (''Error parsing request body'' @ ''EOF''), None),
      main_rateLimiters, [])\<close>
proof -
  let ?r1 = \<open>\<lparr>Cookies = [(''session'', ''s1'')], Body = [''{"max_age":0}'']\<rparr>\<close>
  let ?r2 = "\<lparr>Cookies = [(''remember_token'', ''abc'')], Body = []\<rparr>"
  have c1: "Cookie ?r1 ''remember_token'' = None" by (simp add: Cookie_def)
  have c2: "Cookie ?r2 ''remember_token'' = Some ''abc''" by (rule Cookie_abc)
  have e: "concat (Body ?r2) = []" by simp
  from early_rejection_keeps_registry [of ?r1 main_rateLimiters "[]" 0 "''abc''"] c1
  have a: "snd (LimitMiddleware main_rateLimiters [] 0 ?r1) = (main_rateLimiters, [])" by blast
  from early_rejection_keeps_registry [of ?r2 main_rateLimiters "[]" 0 "''abc''"] c2 e
  have b: "fst (Decode (Body ?r2, [])) = Some EOF"
    "LimitMiddleware main_rateLimiters [] 0 ?r2 =
     ((Write new_ResponseWriter (''Error parsing request body'' @ ''EOF''), None),
      main_rateLimiters, [])" by blast+
  from c1 a c2 e b show ?thesis by blast
qed

end
